theory Spec2Isabelle
  imports Main "HOL-Library.Word" "HOL-Library.Signed_Division"
begin

section \<open>The privatized-object registry of \<open>runtime/src/chpl-privatization.c\<close>\<close>

text \<open>
  The registry maps a pid (\<open>int64_t\<close>) to an opaque pointer. Two instances, each a
  vector of references to blocks of \<open>CHPL_PRIVATIZATION_BLOCK_SIZE\<close> slots, are switched
  by \<open>currentInstanceIdx\<close>. The embedding keeps an explicit store: blocks and block
  vectors live in two heaps and are named by their address (the position at which the
  allocator created them), so that the sharing of blocks between the two instances after
  a grow is the sharing of addresses. Every access the C code performs without a check
  (index out of range, null or freed vector, signed overflow) is a \<open>fault\<close> of the model.
\<close>

subsection \<open>C integers\<close>

type_synonym pid_t = "64 word"   \<comment> \<open>\<open>int64_t\<close>, read with \<open>sint\<close>\<close>
type_synonym ptr = "64 word"     \<comment> \<open>\<open>void *\<close>; \<open>0\<close> is \<open>NULL\<close>\<close>
type_synonym addr = nat

definition CHPL_PRIVATIZATION_BLOCK_SIZE :: int where
  "CHPL_PRIVATIZATION_BLOCK_SIZE = 1024"

definition INT_MAX :: int where
  "INT_MAX = 2 ^ 31 - 1"

text \<open>Conversion of an integer value to \<open>int\<close> (32 bits, two's complement, wrapping as
  gcc and clang define it) and to \<open>size_t\<close> (64 bits, modulo \<open>2 ^ 64\<close>).\<close>

definition to_int :: "int \<Rightarrow> int" where
  "to_int x = (x + 2 ^ 31) mod 2 ^ 32 - 2 ^ 31"

definition to_size_t :: "int \<Rightarrow> nat" where
  "to_size_t x = nat (x mod 2 ^ 64)"

text \<open>\<open>int blockIdx = pid / CHPL_PRIVATIZATION_BLOCK_SIZE\<close>: the division is done on
  \<open>int64_t\<close> and truncates towards zero, its result is then converted to \<open>int\<close>.\<close>

definition blockIdx_of :: "pid_t \<Rightarrow> int" where
  "blockIdx_of pid = to_int (sint pid sdiv CHPL_PRIVATIZATION_BLOCK_SIZE)"

text \<open>\<open>int idx = pid % CHPL_PRIVATIZATION_BLOCK_SIZE\<close>: the remainder has the sign of
  the dividend and always fits \<open>int\<close>.\<close>

definition idx_of :: "pid_t \<Rightarrow> int" where
  "idx_of pid = to_int (sint pid smod CHPL_PRIVATIZATION_BLOCK_SIZE)"

subsection \<open>Data\<close>

datatype fault = OutOfBounds | NullDeref | UseAfterFree | SignedOverflow

record chpl_priv_instance_t =
  blocks :: "addr option"   \<comment> \<open>address of the vector of block references, \<open>None\<close> is \<open>NULL\<close>\<close>
  len :: nat                \<comment> \<open>\<open>size_t\<close>\<close>

record tls_node_t =
  in_use :: bool
  status :: "8 word"        \<comment> \<open>\<open>uint8_t\<close>: storing \<open>-1\<close> gives 255\<close>

text \<open>
  The roster \<open>tls_list\<close> is a singly linked list that only ever grows at its head; it is
  a HOL list with the head first, \<open>next\<close> being the tail. A node is named by its distance
  from the end of the list, which does not change when a node is spliced at the head.
  \<open>reader_tls\<close> is the value of the thread-local key of the calling thread.
\<close>

record registry =
  block_heap :: "ptr list list"
  vec_heap :: "addr option list option list"   \<comment> \<open>\<open>None\<close> once freed; an entry \<open>None\<close> is a null block reference\<close>
  chpl_priv_instances :: "chpl_priv_instance_t list"
  currentInstanceIdx :: nat
  tls_list :: "tls_node_t list"
  reader_tls :: "nat option"

text \<open>The statics before \<open>chpl_privatization_init\<close>: zero-initialised by the C runtime.\<close>

definition static_init :: registry where
  "static_init = \<lparr> block_heap = [], vec_heap = [],
     chpl_priv_instances = [\<lparr>blocks = None, len = 0\<rparr>, \<lparr>blocks = None, len = 0\<rparr>],
     currentInstanceIdx = 0, tls_list = [], reader_tls = None \<rparr>"

subsection \<open>Allocator shim\<close>

definition zero_block :: "ptr list" where
  "zero_block = replicate (nat CHPL_PRIVATIZATION_BLOCK_SIZE) 0"

text \<open>Allocation is taken to succeed (its failure aborts the process).
  \<open>chpl_priv_block_create\<close>: a fresh zero-filled block; returns its address.\<close>

definition chpl_priv_block_create :: "registry \<Rightarrow> addr \<times> registry" where
  "chpl_priv_block_create s =
     (length (block_heap s), s\<lparr>block_heap := block_heap s @ [zero_block]\<rparr>)"

text \<open>\<open>chpl_mem_allocManyZero(n, sizeof(chpl_priv_block_t), ...)\<close>: a fresh vector of
  \<open>n\<close> null block references.\<close>

definition alloc_vec :: "nat \<Rightarrow> registry \<Rightarrow> addr \<times> registry" where
  "alloc_vec n s =
     (length (vec_heap s), s\<lparr>vec_heap := vec_heap s @ [Some (replicate n None)]\<rparr>)"

text \<open>\<open>chpl_mem_free\<close> of a blocks vector.\<close>

definition free_vec :: "addr option \<Rightarrow> registry \<Rightarrow> fault + registry" where
  "free_vec p s =
     (case p of
        None \<Rightarrow> Inr s
      | Some a \<Rightarrow>
          if a < length (vec_heap s) \<and> vec_heap s ! a \<noteq> None
          then Inr (s\<lparr>vec_heap := (vec_heap s)[a := None]\<rparr>)
          else Inl UseAfterFree)"

subsection \<open>Reader TLS roster\<close>

text \<open>\<open>__sync_bool_compare_and_swap(&x, old, new)\<close> on a location holding \<open>cur\<close>: whether
  it succeeded, and the value the location holds afterwards.\<close>

definition sync_bool_compare_and_swap :: "bool \<Rightarrow> bool \<Rightarrow> bool \<Rightarrow> bool \<times> bool" where
  "sync_bool_compare_and_swap cur old new = (if cur = old then (True, new) else (False, cur))"

text \<open>
  The walk of \<open>init_tls\<close> over the roster. The loop body is
  \<^verbatim>\<open>if (curr->in_use || CAS(&curr->in_use, false, true)) continue;\<close>
  \<^verbatim>\<open>pthread_setspecific(reader_tls, curr); return;\<close>
  so the walk goes on past a node that is in use and past a node whose compare-and-swap
  succeeded, and stops at (binds) a node whose compare-and-swap failed.
  \<open>taken k\<close> says whether another thread set \<open>in_use\<close> of node \<open>k\<close> between this thread's
  read of \<open>in_use\<close> and its compare-and-swap; with no other thread it is \<open>False\<close> everywhere.
  The result is the roster after the walk and the node bound, if any.
\<close>

fun init_tls_walk :: "(nat \<Rightarrow> bool) \<Rightarrow> tls_node_t list \<Rightarrow> tls_node_t list \<times> nat option" where
  "init_tls_walk taken [] = ([], None)"
| "init_tls_walk taken (nd # rest) =
     (if in_use nd then
        (case init_tls_walk taken rest of (rest', r) \<Rightarrow> (nd # rest', r))
      else
        (case sync_bool_compare_and_swap (taken (length rest)) False True of
           (True, b) \<Rightarrow>
             (case init_tls_walk taken rest of (rest', r) \<Rightarrow> (nd\<lparr>in_use := b\<rparr> # rest', r))
         | (False, b) \<Rightarrow> (nd\<lparr>in_use := b\<rparr> # rest, Some (length rest))))"

text \<open>\<open>chpl_calloc(1, sizeof(*node)); node->status = -1;\<close> leaves \<open>in_use\<close> zero.\<close>

definition new_tls_node :: tls_node_t where
  "new_tls_node = \<lparr> in_use = False, status = -1 \<rparr>"

text \<open>\<open>init_tls\<close>: walk, and when the walk bound no node, allocate one and splice it at
  the head (the compare-and-swap on the head succeeds when no other thread splices).\<close>

definition init_tls_from :: "(nat \<Rightarrow> bool) \<Rightarrow> registry \<Rightarrow> registry" where
  "init_tls_from taken s =
     (case init_tls_walk taken (tls_list s) of
        (roster, Some k) \<Rightarrow> s\<lparr>tls_list := roster, reader_tls := Some k\<rparr>
      | (roster, None) \<Rightarrow>
          s\<lparr>tls_list := new_tls_node # roster, reader_tls := Some (length roster)\<rparr>)"

definition init_tls :: "registry \<Rightarrow> registry" where
  "init_tls s = init_tls_from (\<lambda>k. False) s"

text \<open>\<open>node->status = v\<close> for the node named \<open>k\<close>.\<close>

definition set_status :: "nat \<Rightarrow> 8 word \<Rightarrow> registry \<Rightarrow> fault + registry" where
  "set_status k v s =
     (let n = length (tls_list s) in
      if k < n then
        Inr (s\<lparr>tls_list := (tls_list s)[n - 1 - k := (tls_list s ! (n - 1 - k))\<lparr>status := v\<rparr>]\<rparr>)
      else Inl OutOfBounds)"

subsection \<open>Read/write coordinator\<close>

definition getCurrentInstanceIdx :: "registry \<Rightarrow> nat" where
  "getCurrentInstanceIdx s = currentInstanceIdx s"

text \<open>\<open>acquireRead\<close>. With no other thread running, the second load of
  \<open>currentInstanceIdx\<close> returns what the first did and the do-while loop runs once.\<close>

definition acquireRead :: "registry \<Rightarrow> fault + (nat \<times> registry)" where
  "acquireRead s =
     (let s1 = (if reader_tls s = None then init_tls s else s) in
      case reader_tls s1 of
        None \<Rightarrow> Inl NullDeref
      | Some node \<Rightarrow>
          (let instIdx = currentInstanceIdx s1 in
           case set_status node (of_nat instIdx) s1 of
             Inl e \<Rightarrow> Inl e
           | Inr s2 \<Rightarrow> Inr (instIdx, s2)))"

definition releaseRead :: "nat \<Rightarrow> registry \<Rightarrow> fault + registry" where
  "releaseRead instIdx s =
     (case reader_tls s of
        None \<Rightarrow> Inl NullDeref
      | Some node \<Rightarrow> set_status node (-1) s)"

subsection \<open>Slots\<close>

text \<open>The block that \<open>chpl_priv_instances[rcIdx].blocks[blockIdx]\<close> names. The C code
  reads the vector without comparing \<open>blockIdx\<close> with \<open>len\<close>; the read is defined only
  inside the vector that was allocated.\<close>

definition block_at :: "registry \<Rightarrow> nat \<Rightarrow> int \<Rightarrow> fault + addr" where
  "block_at s rcIdx blockIdx =
     (if rcIdx \<ge> length (chpl_priv_instances s) then Inl OutOfBounds else
      case blocks (chpl_priv_instances s ! rcIdx) of
        None \<Rightarrow> Inl NullDeref
      | Some a \<Rightarrow>
          if a \<ge> length (vec_heap s) then Inl UseAfterFree else
          (case vec_heap s ! a of
             None \<Rightarrow> Inl UseAfterFree
           | Some vec \<Rightarrow>
               if blockIdx < 0 \<or> blockIdx \<ge> int (length vec) then Inl OutOfBounds else
               (case vec ! nat blockIdx of
                  None \<Rightarrow> Inl NullDeref
                | Some b \<Rightarrow> if b < length (block_heap s) then Inr b else Inl UseAfterFree)))"

definition load_slot :: "registry \<Rightarrow> nat \<Rightarrow> int \<Rightarrow> int \<Rightarrow> fault + ptr" where
  "load_slot s rcIdx blockIdx idx =
     (case block_at s rcIdx blockIdx of
        Inl e \<Rightarrow> Inl e
      | Inr b \<Rightarrow>
          if idx < 0 \<or> idx \<ge> int (length (block_heap s ! b)) then Inl OutOfBounds
          else Inr (block_heap s ! b ! nat idx))"

definition store_slot :: "registry \<Rightarrow> nat \<Rightarrow> int \<Rightarrow> int \<Rightarrow> ptr \<Rightarrow> fault + registry" where
  "store_slot s rcIdx blockIdx idx v =
     (case block_at s rcIdx blockIdx of
        Inl e \<Rightarrow> Inl e
      | Inr b \<Rightarrow>
          if idx < 0 \<or> idx \<ge> int (length (block_heap s ! b)) then Inl OutOfBounds
          else Inr (s\<lparr>block_heap := (block_heap s)[b := (block_heap s ! b)[nat idx := v]]\<rparr>))"

subsection \<open>Public API: initialisation, get, clear, capacity\<close>

text \<open>\<open>chpl_privatization_init\<close>: instance 0 gets a vector of one fresh block.\<close>

definition chpl_privatization_init :: "registry \<Rightarrow> registry" where
  "chpl_privatization_init s =
     (case alloc_vec 1 s of (a, s1) \<Rightarrow>
      case chpl_priv_block_create s1 of (b, s2) \<Rightarrow>
        s2\<lparr> vec_heap := (vec_heap s2)[a := map_option (\<lambda>vec. vec[0 := Some b]) (vec_heap s2 ! a)],
            chpl_priv_instances := (chpl_priv_instances s2)[0 := \<lparr>blocks = Some a, len = 1\<rparr>] \<rparr>)"

definition chpl_getPrivatizedClass :: "pid_t \<Rightarrow> registry \<Rightarrow> fault + (ptr \<times> registry)" where
  "chpl_getPrivatizedClass i s =
     (case acquireRead s of
        Inl e \<Rightarrow> Inl e
      | Inr (rcIdx, s1) \<Rightarrow>
          (case load_slot s1 rcIdx (blockIdx_of i) (idx_of i) of
             Inl e \<Rightarrow> Inl e
           | Inr ret \<Rightarrow>
               (case releaseRead rcIdx s1 of
                  Inl e \<Rightarrow> Inl e
                | Inr s2 \<Rightarrow> Inr (ret, s2))))"

definition chpl_clearPrivatizedClass :: "pid_t \<Rightarrow> registry \<Rightarrow> fault + registry" where
  "chpl_clearPrivatizedClass i s =
     (case acquireRead s of
        Inl e \<Rightarrow> Inl e
      | Inr (rcIdx, s1) \<Rightarrow>
          (case store_slot s1 rcIdx (blockIdx_of i) (idx_of i) 0 of
             Inl e \<Rightarrow> Inl e
           | Inr s2 \<Rightarrow> releaseRead rcIdx s2))"

text \<open>\<open>chpl_numPrivatizedClasses\<close>: \<open>len * CHPL_PRIVATIZATION_BLOCK_SIZE\<close> is computed in
  \<open>size_t\<close> and returned as \<open>int64_t\<close>.\<close>

definition chpl_numPrivatizedClasses :: "registry \<Rightarrow> fault + (int \<times> registry)" where
  "chpl_numPrivatizedClasses s =
     (case acquireRead s of
        Inl e \<Rightarrow> Inl e
      | Inr (rcIdx, s1) \<Rightarrow>
          if rcIdx \<ge> length (chpl_priv_instances s1) then Inl OutOfBounds else
          (let ret = sint (word_of_nat (to_size_t (int (len (chpl_priv_instances s1 ! rcIdx))
                              * CHPL_PRIVATIZATION_BLOCK_SIZE)) :: 64 word) in
           case releaseRead rcIdx s1 of
             Inl e \<Rightarrow> Inl e
           | Inr s2 \<Rightarrow> Inr (ret, s2)))"

subsection \<open>Public API: publish\<close>

text \<open>\<open>chpl_memcpy(newBlocks, old.blocks, old.len * sizeof(void*))\<close>.\<close>

definition copy_blocks :: "addr \<Rightarrow> addr option \<Rightarrow> nat \<Rightarrow> registry \<Rightarrow> fault + registry" where
  "copy_blocks newBlocks oldBlocks n s =
     (case oldBlocks of
        None \<Rightarrow> Inl NullDeref
      | Some a \<Rightarrow>
          if a \<ge> length (vec_heap s) \<or> newBlocks \<ge> length (vec_heap s) then Inl UseAfterFree else
          (case (vec_heap s ! a, vec_heap s ! newBlocks) of
             (Some src, Some dst) \<Rightarrow>
               if n > length src \<or> n > length dst then Inl OutOfBounds
               else Inr (s\<lparr>vec_heap := (vec_heap s)[newBlocks := Some (take n src @ drop n dst)]\<rparr>)
           | _ \<Rightarrow> Inl UseAfterFree))"

text \<open>\<open>for (int i = old.len; i <= blockIdx; i++) newBlocks[i] = chpl_priv_block_create();\<close>\<close>

function fill_blocks :: "addr \<Rightarrow> int \<Rightarrow> int \<Rightarrow> registry \<Rightarrow> fault + registry" where
  "fill_blocks newBlocks i blockIdx s =
     (if i \<le> blockIdx then
        (case chpl_priv_block_create s of (b, s1) \<Rightarrow>
           if newBlocks \<ge> length (vec_heap s1) then Inl UseAfterFree else
           (case vec_heap s1 ! newBlocks of
              None \<Rightarrow> Inl UseAfterFree
            | Some vec \<Rightarrow>
                if i < 0 \<or> i \<ge> int (length vec) then Inl OutOfBounds
                else if i = INT_MAX then Inl SignedOverflow
                else fill_blocks newBlocks (i + 1) blockIdx
                       (s1\<lparr>vec_heap := (vec_heap s1)[newBlocks := Some (vec[nat i := Some b])]\<rparr>)))
      else Inr s)"
  by pat_completeness auto
termination
  by (relation "measure (\<lambda>(newBlocks, i, blockIdx, s). nat (blockIdx + 1 - i))") auto

declare fill_blocks.simps [simp del]

text \<open>The quiescence wait,
  \<^verbatim>\<open>for (curr = tls_list; curr != NULL; curr = curr->next)\<close>
  \<^verbatim>\<open>  while (curr->status == instIdx) chpl_task_yield();\<close>
  with no other thread running: a node's status does not change while the writer spins,
  so the inner loop either falls through or never ends (\<open>None\<close>).\<close>

partial_function (option) spin_on :: "tls_node_t \<Rightarrow> nat \<Rightarrow> unit option" where
  "spin_on nd instIdx =
     (if uint (status nd) = int instIdx then spin_on nd instIdx else Some ())"

fun wait_for_readers :: "tls_node_t list \<Rightarrow> nat \<Rightarrow> unit option" where
  "wait_for_readers [] instIdx = Some ()"
| "wait_for_readers (nd # rest) instIdx =
     (case spin_on nd instIdx of None \<Rightarrow> None | Some u \<Rightarrow> wait_for_readers rest instIdx)"

text \<open>The part of the write critical section that builds the new instance and swaps
  \<open>currentInstanceIdx\<close> (lines 169 to 184).\<close>

definition grow_instance :: "int \<Rightarrow> nat \<Rightarrow> registry \<Rightarrow> fault + registry" where
  "grow_instance blockIdx instIdx s =
     (let newInstIdx = (if getCurrentInstanceIdx s = 0 then 1 else 0);
          old = chpl_priv_instances s ! instIdx in
      case alloc_vec (to_size_t (blockIdx + 1)) s of (newBlocks, s1) \<Rightarrow>
      case copy_blocks newBlocks (blocks old) (len old) s1 of
        Inl e \<Rightarrow> Inl e
      | Inr s2 \<Rightarrow>
          (case fill_blocks newBlocks (to_int (int (len old))) blockIdx s2 of
             Inl e \<Rightarrow> Inl e
           | Inr s3 \<Rightarrow>
               if newInstIdx \<ge> length (chpl_priv_instances s3) then Inl OutOfBounds else
               Inr (s3\<lparr> chpl_priv_instances := (chpl_priv_instances s3)
                            [newInstIdx := \<lparr>blocks = Some newBlocks, len = to_size_t (blockIdx + 1)\<rparr>],
                        currentInstanceIdx := newInstIdx \<rparr>)))"

text \<open>The write critical section (lines 157 to 195), entered with the lock free.
  \<open>None\<close>: the quiescence wait never ends.\<close>

definition write_section :: "int \<Rightarrow> registry \<Rightarrow> (fault + registry) option" where
  "write_section blockIdx s =
     (let instIdx = getCurrentInstanceIdx s in
      if instIdx \<ge> length (chpl_priv_instances s) then Some (Inl OutOfBounds)
      else if blockIdx = INT_MAX then Some (Inl SignedOverflow)
      else
        (let deltaBlocks = to_int (int (to_size_t (blockIdx + 1)) - int (len (chpl_priv_instances s ! instIdx))) in
         if deltaBlocks \<le> 0 then Some (Inr s)
         else
           (case grow_instance blockIdx instIdx s of
              Inl e \<Rightarrow> Some (Inl e)
            | Inr s1 \<Rightarrow>
                (case wait_for_readers (tls_list s1) instIdx of
                   None \<Rightarrow> None
                 | Some u \<Rightarrow> Some (free_vec (blocks (chpl_priv_instances s1 ! instIdx)) s1)))))"

text \<open>
  The write critical section with the reads of the quiescence wait made explicit, for the
  case that readers run while the writer waits. Every evaluation of
  \<open>curr->status == instIdx\<close> is one read of a status, and \<open>chpl_task_yield\<close> is where the
  readers run, so a node is given by what its status reads as at each of the writer's
  reads. \<open>wait_reads fuel sts instIdx t\<close> runs the two loops of lines 187 to 191 for at most
  \<open>fuel\<close> reads, \<open>t\<close> reads having been made before: \<open>Some t'\<close> when the loops are left
  after read number \<open>t' - 1\<close>, \<open>None\<close> when the writer is still waiting.
\<close>

fun wait_reads :: "nat \<Rightarrow> (nat \<Rightarrow> 8 word) list \<Rightarrow> nat \<Rightarrow> nat \<Rightarrow> nat option" where
  "wait_reads fuel [] instIdx t = Some t"
| "wait_reads 0 (st # rest) instIdx t = None"
| "wait_reads (Suc fuel) (st # rest) instIdx t =
     (if uint (st t) = int instIdx then wait_reads fuel (st # rest) instIdx (Suc t)
      else wait_reads fuel rest instIdx (Suc t))"

text \<open>How far the writer has got: it left early for a retry (\<open>deltaBlocks <= 0\<close>), it is
  in the quiescence wait, or it has freed the old vector and leaves the section.\<close>

datatype progress = Retry | Waiting | Freed

text \<open>
  The state of the registry when the writer has made at most \<open>fuel\<close> reads of a status:
  lines 157 to 184 as in \<open>write_section\<close>, then the wait over the roster as the writer
  finds it, \<open>poll k t\<close> being what the status of the node at position \<open>k\<close> from the head
  reads as at read number \<open>t\<close>, and the free of line 194 once the wait is over.
\<close>

definition write_section_observed ::
  "nat \<Rightarrow> (nat \<Rightarrow> nat \<Rightarrow> 8 word) \<Rightarrow> int \<Rightarrow> registry \<Rightarrow> fault + progress \<times> registry" where
  "write_section_observed fuel poll blockIdx s =
     (let instIdx = getCurrentInstanceIdx s in
      if instIdx \<ge> length (chpl_priv_instances s) then Inl OutOfBounds
      else if blockIdx = INT_MAX then Inl SignedOverflow
      else
        (let deltaBlocks = to_int (int (to_size_t (blockIdx + 1)) - int (len (chpl_priv_instances s ! instIdx))) in
         if deltaBlocks \<le> 0 then Inr (Retry, s)
         else
           (case grow_instance blockIdx instIdx s of
              Inl e \<Rightarrow> Inl e
            | Inr s1 \<Rightarrow>
                (case wait_reads fuel (map poll [0..<length (tls_list s1)]) instIdx 0 of
                   None \<Rightarrow> Inr (Waiting, s1)
                 | Some t \<Rightarrow>
                     (case free_vec (blocks (chpl_priv_instances s1 ! instIdx)) s1 of
                        Inl e \<Rightarrow> Inl e
                      | Inr s2 \<Rightarrow> Inr (Freed, s2))))))"

text \<open>One turn of the \<open>while (true)\<close> loop of \<open>chpl_newPrivatizedClass\<close>. The flag says
  whether the function returned (\<open>True\<close>) or goes round again.\<close>

definition publish_iter :: "ptr \<Rightarrow> pid_t \<Rightarrow> registry \<Rightarrow> (fault + bool \<times> registry) option" where
  "publish_iter v pid s =
     (let blockIdx = blockIdx_of pid in
      case acquireRead s of
        Inl e \<Rightarrow> Some (Inl e)
      | Inr (rcIdx, s1) \<Rightarrow>
          if rcIdx \<ge> length (chpl_priv_instances s1) then Some (Inl OutOfBounds)
          else if to_size_t blockIdx \<ge> len (chpl_priv_instances s1 ! rcIdx) then
            (case releaseRead rcIdx s1 of
               Inl e \<Rightarrow> Some (Inl e)
             | Inr s2 \<Rightarrow>
                 (case write_section blockIdx s2 of
                    None \<Rightarrow> None
                  | Some (Inl e) \<Rightarrow> Some (Inl e)
                  | Some (Inr s3) \<Rightarrow> Some (Inr (False, s3))))
          else
            (case store_slot s1 rcIdx blockIdx (idx_of pid) v of
               Inl e \<Rightarrow> Some (Inl e)
             | Inr s2 \<Rightarrow>
                 (case releaseRead rcIdx s2 of
                    Inl e \<Rightarrow> Some (Inl e)
                  | Inr s3 \<Rightarrow> Some (Inr (True, s3)))))"

text \<open>\<open>chpl_newPrivatizedClass(v, pid)\<close>. \<open>None\<close>: the call never returns.\<close>

partial_function (option) chpl_newPrivatizedClass ::
  "ptr \<Rightarrow> pid_t \<Rightarrow> registry \<Rightarrow> (fault + registry) option" where
  "chpl_newPrivatizedClass v pid s =
     (case publish_iter v pid s of
        None \<Rightarrow> None
      | Some (Inl e) \<Rightarrow> Some (Inl e)
      | Some (Inr (returned, s1)) \<Rightarrow>
          if returned then Some (Inr s1) else chpl_newPrivatizedClass v pid s1)"

declare spin_on.simps [code]
declare chpl_newPrivatizedClass.simps [code]

subsection \<open>Sequences of operations\<close>

datatype op = Publish ptr pid_t | Get pid_t | Clear pid_t | Capacity

fun exec_op :: "op \<Rightarrow> registry \<Rightarrow> (fault + registry) option" where
  "exec_op (Publish v pid) s = chpl_newPrivatizedClass v pid s"
| "exec_op (Get pid) s = Some (map_sum id snd (chpl_getPrivatizedClass pid s))"
| "exec_op (Clear pid) s = Some (chpl_clearPrivatizedClass pid s)"
| "exec_op Capacity s = Some (map_sum id snd (chpl_numPrivatizedClasses s))"

text \<open>Running a list of operations stops at the first fault or call that never returns.\<close>

fun run :: "op list \<Rightarrow> registry \<Rightarrow> (fault + registry) option" where
  "run [] s = Some (Inr s)"
| "run (x # xs) s =
     (case exec_op x s of
        None \<Rightarrow> None
      | Some (Inl e) \<Rightarrow> Some (Inl e)
      | Some (Inr s1) \<Rightarrow> run xs s1)"

definition initial :: registry where
  "initial = chpl_privatization_init static_init"

subsection \<open>Observations and invariants\<close>

definition cur_instance :: "registry \<Rightarrow> chpl_priv_instance_t" where
  "cur_instance s = chpl_priv_instances s ! currentInstanceIdx s"

text \<open>What \<open>get\<close> and \<open>capacity\<close> return, without the state.\<close>

definition get_value :: "pid_t \<Rightarrow> registry \<Rightarrow> fault + ptr" where
  "get_value pid s = map_sum id fst (chpl_getPrivatizedClass pid s)"

definition capacity :: "registry \<Rightarrow> fault + int" where
  "capacity s = map_sum id fst (chpl_numPrivatizedClasses s)"

text \<open>The slot a pid addresses in the code: block index and index in the block.\<close>

definition slot_of :: "pid_t \<Rightarrow> int \<times> int" where
  "slot_of pid = (blockIdx_of pid, idx_of pid)"

definition cur_vec :: "registry \<Rightarrow> addr option list option" where
  "cur_vec s =
     (case blocks (cur_instance s) of
        None \<Rightarrow> None
      | Some a \<Rightarrow> if a < length (vec_heap s) then vec_heap s ! a else None)"

text \<open>I1: the current instance names a live vector of \<open>len\<close> distinct live blocks, each
  of \<open>CHPL_PRIVATIZATION_BLOCK_SIZE\<close> slots; \<open>len\<close> fits \<open>int\<close>.\<close>

definition store_ok :: "registry \<Rightarrow> bool" where
  "store_ok s \<longleftrightarrow>
     length (chpl_priv_instances s) = 2 \<and> currentInstanceIdx s < 2 \<and>
     (case cur_vec s of
        None \<Rightarrow> False
      | Some vec \<Rightarrow>
          length vec = len (cur_instance s) \<and> 0 < length vec \<and> int (length vec) \<le> INT_MAX \<and>
          distinct vec \<and>
          list_all (\<lambda>r. case r of None \<Rightarrow> False
                         | Some b \<Rightarrow> b < length (block_heap s) \<and>
                             int (length (block_heap s ! b)) = CHPL_PRIVATIZATION_BLOCK_SIZE) vec)"

text \<open>Between two calls of a single thread every roster node advertises "not reading",
  and the thread-local key, once set, names a node of the roster.\<close>

definition tls_ok :: "registry \<Rightarrow> bool" where
  "tls_ok s \<longleftrightarrow>
     list_all (\<lambda>nd. status nd = -1) (tls_list s) \<and>
     (case reader_tls s of None \<Rightarrow> True | Some k \<Rightarrow> k < length (tls_list s))"

definition registry_ok :: "registry \<Rightarrow> bool" where
  "registry_ok s \<longleftrightarrow> store_ok s \<and> tls_ok s"

text \<open>Two states with the same heaps, instances and current index.\<close>

definition same_store :: "registry \<Rightarrow> registry \<Rightarrow> bool" where
  "same_store s t \<longleftrightarrow>
     block_heap s = block_heap t \<and> vec_heap s = vec_heap t \<and>
     chpl_priv_instances s = chpl_priv_instances t \<and> currentInstanceIdx s = currentInstanceIdx t"

text \<open>Inside a read critical section: the calling thread's node advertises an instance,
  every other node is idle.\<close>

definition tls_reading :: "registry \<Rightarrow> bool" where
  "tls_reading s \<longleftrightarrow>
     (case reader_tls s of
        None \<Rightarrow> False
      | Some k \<Rightarrow>
          k < length (tls_list s) \<and>
          list_all (\<lambda>nd. status nd = -1)
            ((tls_list s)[length (tls_list s) - 1 - k :=
               (tls_list s ! (length (tls_list s) - 1 - k))\<lparr>status := -1\<rparr>]))"

text \<open>What a returning \<open>chpl_newPrivatizedClass v pid\<close> establishes from a state \<open>s\<close>:
  the slot of \<open>pid\<close> holds \<open>v\<close>, every other slot that existed keeps its value, the
  slots added by growing are null, \<open>len\<close> is the larger of the old \<open>len\<close> and
  \<open>blockIdx + 1\<close>, and the instance pair is untouched unless \<open>len\<close> changed.\<close>

definition publish_post :: "ptr \<Rightarrow> pid_t \<Rightarrow> registry \<Rightarrow> registry \<Rightarrow> bool" where
  "publish_post v pid s s' \<longleftrightarrow>
     registry_ok s' \<and>
     len (cur_instance s') = max (len (cur_instance s)) (nat (blockIdx_of pid + 1)) \<and>
     load_slot s' (currentInstanceIdx s') (blockIdx_of pid) (idx_of pid) = Inr v \<and>
     (\<forall>b' i'. (b', i') \<noteq> slot_of pid \<and> b' < int (len (cur_instance s)) \<longrightarrow>
        load_slot s' (currentInstanceIdx s') b' i' = load_slot s (currentInstanceIdx s) b' i') \<and>
     (\<forall>b' i'. (b', i') \<noteq> slot_of pid \<and> int (len (cur_instance s)) \<le> b' \<and>
        b' < int (len (cur_instance s')) \<and> 0 \<le> i' \<and> i' < CHPL_PRIVATIZATION_BLOCK_SIZE \<longrightarrow>
        load_slot s' (currentInstanceIdx s') b' i' = Inr 0) \<and>
     (len (cur_instance s') = len (cur_instance s) \<longrightarrow>
        vec_heap s' = vec_heap s \<and> chpl_priv_instances s' = chpl_priv_instances s \<and>
        currentInstanceIdx s' = currentInstanceIdx s)"

text \<open>An intermediate state of a publish with a negative block index from which the next
  turn of the loop faults.\<close>

definition stuck_state :: "pid_t \<Rightarrow> registry \<Rightarrow> bool" where
  "stuck_state pid s \<longleftrightarrow>
     blockIdx_of pid < 0 \<and> tls_ok s \<and> length (chpl_priv_instances s) = 2 \<and>
     currentInstanceIdx s < 2 \<and> to_size_t (blockIdx_of pid) < len (cur_instance s)"

text \<open>What an observation reports after a list of operations run from the state that
  \<open>chpl_privatization_init\<close> leaves: \<open>None\<close> when a call does not return, \<open>Inl\<close> at the first
  fault.\<close>

definition observe :: "(registry \<Rightarrow> fault + 'a) \<Rightarrow> op list \<Rightarrow> (fault + 'a) option" where
  "observe f ops =
     (case run ops initial of
        None \<Rightarrow> None
      | Some (Inl e) \<Rightarrow> Some (Inl e)
      | Some (Inr s) \<Rightarrow> Some (f s))"

text \<open>Quiescence: no roster node advertises the old instance index. The comparison
  \<open>curr->status == instIdx\<close> promotes the \<open>uint8_t\<close> status to \<open>int\<close>.\<close>

definition quiescent :: "registry \<Rightarrow> nat \<Rightarrow> bool" where
  "quiescent s oldIdx \<longleftrightarrow> list_all (\<lambda>nd. uint (status nd) \<noteq> int oldIdx) (tls_list s)"

text \<open>The roster as the writer reads it when no reader runs: the statuses of the state.\<close>

definition frozen_poll :: "registry \<Rightarrow> nat \<Rightarrow> nat \<Rightarrow> 8 word" where
  "frozen_poll s k t = status (tls_list s ! k)"

text \<open>
  Three threads around one grow from instance 0. Node 0 belongs to a reader that loaded
  \<open>currentInstanceIdx = 0\<close> (line 107) before the writer's swap and stores it into its
  status (line 108) after the writer's first read; its revalidation (line 109) fails and
  it moves to index 1 later. Node 1 belongs to a reader inside a read section on instance
  0, which it releases (line 116) after the writer's second read. Node 2 is the writer's
  own node, idle since its \<open>releaseRead\<close>.
\<close>

definition late_reader_poll :: "nat \<Rightarrow> nat \<Rightarrow> 8 word" where
  "late_reader_poll k t =
     (if k = 0 then (if t = 0 then 255 else if t \<le> 4 then 0 else 1)
      else if k = 1 then (if t \<le> 1 then 0 else 255)
      else 255)"

definition three_threads :: registry where
  "three_threads =
     initial\<lparr>tls_list := [\<lparr>in_use = False, status = 255\<rparr>, \<lparr>in_use = True, status = 0\<rparr>,
                          \<lparr>in_use = True, status = 255\<rparr>]\<rparr>"

section \<open>Properties\<close>

subsection \<open>Roster and coordinator\<close>

lemma walk_seq: "init_tls_walk (\<lambda>k. False) roster = (map (\<lambda>nd. nd\<lparr>in_use := True\<rparr>) roster, None)"
  by (induction roster) (auto simp: sync_bool_compare_and_swap_def)

lemma acquireRead_ok:
  assumes "tls_ok s"
  shows "\<exists>s1. acquireRead s = Inr (currentInstanceIdx s, s1) \<and> same_store s s1 \<and> tls_reading s1"
proof (cases "reader_tls s")
  case None
  with assms show ?thesis
    by (auto simp: acquireRead_def init_tls_def init_tls_from_def walk_seq set_status_def
        same_store_def tls_reading_def tls_ok_def new_tls_node_def Let_def list_all_iff)
next
  case (Some k)
  with assms show ?thesis
    by (auto simp: acquireRead_def set_status_def same_store_def tls_reading_def tls_ok_def
        Let_def list_all_length nth_list_update)
qed

lemma releaseRead_ok:
  assumes "tls_reading s"
  shows "\<exists>s1. releaseRead i s = Inr s1 \<and> same_store s s1 \<and> tls_ok s1"
  using assms
  by (auto simp: releaseRead_def set_status_def same_store_def tls_reading_def tls_ok_def
      Let_def split: option.splits)

lemma spin_on_idle: "uint (status nd) \<noteq> int i \<Longrightarrow> spin_on nd i = Some ()"
  by (subst spin_on.simps) simp

lemma spin_on_Some:
  assumes "spin_on nd i = Some y"
  shows "uint (status nd) \<noteq> int i"
  by (rule spin_on.raw_induct [where P = "\<lambda>nd i y. uint (status nd) \<noteq> int i", OF _ assms])
     (auto split: if_splits)

lemma spin_on_busy: "uint (status nd) = int i \<Longrightarrow> spin_on nd i = None"
  using spin_on_Some [of nd i] by (cases "spin_on nd i") auto

lemma m1_255: "(-1 :: 8 word) = 255"
  by simp

lemma uint_m1: "uint (-1 :: 8 word) = 255"
  unfolding m1_255 by simp

lemma wait_for_readers_iff:
  "wait_for_readers roster i = Some () \<longleftrightarrow> list_all (\<lambda>nd. uint (status nd) \<noteq> int i) roster"
  by (induction roster) (auto simp: spin_on_idle spin_on_busy split: option.splits)

lemma wait_idle: "tls_ok s \<Longrightarrow> i < 2 \<Longrightarrow> wait_for_readers (tls_list s) i = Some ()"
  unfolding wait_for_readers_iff tls_ok_def
  by (auto simp: list_all_iff uint_m1)


lemma block_at_in:
  assumes "store_ok s" "0 \<le> b" "b < int (len (cur_instance s))"
  shows "\<exists>a vec. cur_vec s = Some vec \<and> vec ! nat b = Some a \<and>
           block_at s (currentInstanceIdx s) b = Inr a \<and> a < length (block_heap s) \<and>
           int (length (block_heap s ! a)) = CHPL_PRIVATIZATION_BLOCK_SIZE"
proof -
  from assms(1) obtain vec where v: "cur_vec s = Some vec" "length vec = len (cur_instance s)"
    and la: "list_all (\<lambda>r. case r of None \<Rightarrow> False
                         | Some b \<Rightarrow> b < length (block_heap s) \<and>
                             int (length (block_heap s ! b)) = CHPL_PRIVATIZATION_BLOCK_SIZE) vec"
    and l2: "length (chpl_priv_instances s) = 2" "currentInstanceIdx s < 2"
    by (auto simp: store_ok_def split: option.splits)
  from assms v have nb: "nat b < length vec" by simp
  with la obtain a where a: "vec ! nat b = Some a" "a < length (block_heap s)"
     "int (length (block_heap s ! a)) = CHPL_PRIVATIZATION_BLOCK_SIZE"
    by (auto simp: list_all_length split: option.splits)
  from v obtain p where p: "blocks (cur_instance s) = Some p" "p < length (vec_heap s)" "vec_heap s ! p = Some vec"
    by (auto simp: cur_vec_def split: option.splits if_splits)
  have "block_at s (currentInstanceIdx s) b = Inr a"
    using p a nb l2 assms(2,3) v(2)
    by (simp add: block_at_def cur_instance_def)
  with v a show ?thesis by blast
qed

lemma block_at_out:
  assumes "store_ok s" "b < 0 \<or> int (len (cur_instance s)) \<le> b"
  shows "block_at s (currentInstanceIdx s) b = Inl OutOfBounds"
  using assms
  by (auto simp: store_ok_def block_at_def cur_vec_def cur_instance_def split: option.splits if_splits)

lemma load_slot_in:
  assumes "store_ok s" "0 \<le> b" "b < int (len (cur_instance s))" "0 \<le> i" "i < CHPL_PRIVATIZATION_BLOCK_SIZE"
  shows "\<exists>v. load_slot s (currentInstanceIdx s) b i = Inr v"
  using block_at_in [OF assms(1-3)] assms(4,5)
  by (auto simp: load_slot_def)

lemma load_slot_out:
  assumes "store_ok s" "b < 0 \<or> int (len (cur_instance s)) \<le> b"
  shows "load_slot s (currentInstanceIdx s) b i = Inl OutOfBounds"
  using block_at_out [OF assms] by (simp add: load_slot_def)

lemma same_store_load:
  "same_store s t \<Longrightarrow> load_slot s r b i = load_slot t r b i"
  by (auto simp: same_store_def load_slot_def block_at_def cong: option.case_cong sum.case_cong if_cong)

lemma same_store_ok:
  "same_store s t \<Longrightarrow> store_ok s = store_ok t"
  by (auto simp: same_store_def store_ok_def cur_vec_def cur_instance_def cong: option.case_cong if_cong)

lemma same_store_len:
  "same_store s t \<Longrightarrow> cur_instance s = cur_instance t"
  by (simp add: same_store_def cur_instance_def)


lemma block_at_heap_upd:
  "length bh' = length (block_heap s) \<Longrightarrow> block_at (s\<lparr>block_heap := bh'\<rparr>) r b = block_at s r b"
  by (simp add: block_at_def cong: option.case_cong if_cong)

lemma store_ok_slot_upd:
  assumes "store_ok s" "a < length (block_heap s)"
  shows "store_ok (s\<lparr>block_heap := (block_heap s)[a := (block_heap s ! a)[k := v]]\<rparr>)"
  using assms
  by (auto simp: store_ok_def cur_vec_def cur_instance_def list_all_iff nth_list_update
      split: option.splits if_splits)

lemma block_at_inj:
  assumes "store_ok s"
    and "block_at s (currentInstanceIdx s) b = Inr a"
    and "block_at s (currentInstanceIdx s) b' = Inr a"
  shows "b = b'"
proof -
  from assms(1) obtain vec where v: "cur_vec s = Some vec" "length vec = len (cur_instance s)" "distinct vec"
    by (auto simp: store_ok_def split: option.splits)
  have r: "0 \<le> c \<and> c < int (length vec) \<and> vec ! nat c = Some a"
    if "block_at s (currentInstanceIdx s) c = Inr a" for c
    using that v(1)
    by (auto simp: block_at_def cur_vec_def cur_instance_def split: option.splits if_splits)
  from r [OF assms(2)] r [OF assms(3)] v(3) have "nat b = nat b'"
    using nth_eq_iff_index_eq [of vec "nat b" "nat b'"] by auto
  with r [OF assms(2)] r [OF assms(3)] show ?thesis by linarith
qed

lemma store_slot_in:
  assumes ok: "store_ok s" and b: "0 \<le> b" "b < int (len (cur_instance s))"
    and i: "0 \<le> i" "i < CHPL_PRIVATIZATION_BLOCK_SIZE"
  shows "\<exists>s'. store_slot s (currentInstanceIdx s) b i v = Inr s' \<and> store_ok s' \<and>
           cur_instance s' = cur_instance s \<and> currentInstanceIdx s' = currentInstanceIdx s \<and>
           tls_list s' = tls_list s \<and> reader_tls s' = reader_tls s \<and>
           load_slot s' (currentInstanceIdx s) b i = Inr v \<and>
           (\<forall>b' i'. (b', i') \<noteq> (b, i) \<longrightarrow>
              load_slot s' (currentInstanceIdx s) b' i' = load_slot s (currentInstanceIdx s) b' i')"
proof -
  from block_at_in [OF ok b] obtain a where
    a: "block_at s (currentInstanceIdx s) b = Inr a" "a < length (block_heap s)"
       "int (length (block_heap s ! a)) = CHPL_PRIVATIZATION_BLOCK_SIZE"
    by blast
  define s' where "s' = s\<lparr>block_heap := (block_heap s)[a := (block_heap s ! a)[nat i := v]]\<rparr>"
  have st: "store_slot s (currentInstanceIdx s) b i v = Inr s'"
    using a i by (simp add: store_slot_def s'_def)
  have ba: "block_at s' r c = block_at s r c" for r c
    unfolding s'_def by (rule block_at_heap_upd) simp
  have ok': "store_ok s'"
    unfolding s'_def by (rule store_ok_slot_upd [OF ok a(2)])
  have ls: "load_slot s' r c j =
      (case block_at s r c of Inl e \<Rightarrow> Inl e
       | Inr x \<Rightarrow> if j < 0 \<or> j \<ge> int (length (block_heap s' ! x)) then Inl OutOfBounds
                  else Inr (block_heap s' ! x ! nat j))" for r c j
    by (simp add: load_slot_def ba)
  have bh: "block_heap s' = (block_heap s)[a := (block_heap s ! a)[nat i := v]]"
    by (simp add: s'_def)
  have same: "load_slot s' (currentInstanceIdx s) b i = Inr v"
    using a i by (simp add: ls bh)
  have other: "load_slot s' (currentInstanceIdx s) b' i' = load_slot s (currentInstanceIdx s) b' i'"
    if ne: "(b', i') \<noteq> (b, i)" for b' i'
  proof (cases "block_at s (currentInstanceIdx s) b'")
    case (Inl e)
    then show ?thesis unfolding ls by (simp add: load_slot_def)
  next
    case (Inr a')
    show ?thesis
    proof (cases "a' = a")
      case True
      with Inr a(1) have "b' = b" using block_at_inj [OF ok] by blast
      with ne have "i' \<noteq> i" by simp
      then have "nat i' \<noteq> nat i \<or> i' < 0" using i by auto
      with Inr True a show ?thesis
        unfolding ls by (auto simp: load_slot_def bh nth_list_update)
    next
      case False
      with Inr a show ?thesis
        unfolding ls by (auto simp: load_slot_def bh nth_list_update)
    qed
  qed
  have "cur_instance s' = cur_instance s" "currentInstanceIdx s' = currentInstanceIdx s"
    "tls_list s' = tls_list s" "reader_tls s' = reader_tls s"
    by (simp_all add: s'_def cur_instance_def)
  with st ok' same other show ?thesis by blast
qed


lemma fill_blocks_ok:
  assumes "nat (blockIdx + 1 - i) = k"
    and "nb < length (vec_heap s)" "vec_heap s ! nb = Some vec"
    and "0 \<le> i" "i \<le> blockIdx + 1" "blockIdx < int (length vec)" "blockIdx < INT_MAX"
    and "0 \<le> blockIdx"
  shows "\<exists>vec'. fill_blocks nb i blockIdx s =
            Inr (s\<lparr>block_heap := block_heap s @ replicate k zero_block,
                   vec_heap := (vec_heap s)[nb := Some vec']\<rparr>) \<and>
          length vec' = length vec \<and>
          (\<forall>j. j < nat i \<longrightarrow> vec' ! j = vec ! j) \<and>
          (\<forall>j. nat i \<le> j \<and> j \<le> nat blockIdx \<longrightarrow> vec' ! j = Some (length (block_heap s) + (j - nat i))) \<and>
          (\<forall>j. nat blockIdx < j \<longrightarrow> vec' ! j = vec ! j)"
  using assms
proof (induction k arbitrary: i s vec)
  case 0
  then have "\<not> i \<le> blockIdx" by simp
  then have "fill_blocks nb i blockIdx s = Inr s"
    by (subst fill_blocks.simps) simp
  moreover have "s\<lparr>block_heap := block_heap s @ replicate 0 zero_block,
                   vec_heap := (vec_heap s)[nb := Some vec]\<rparr> = s"
    using 0 by (simp add: list_update_same_conv)
  moreover have "\<forall>j. nat i \<le> j \<and> j \<le> nat blockIdx \<longrightarrow> vec ! j = Some (length (block_heap s) + (j - nat i))"
    using 0 by (auto simp: nat_le_iff)
  ultimately show ?case by (intro exI [of _ vec]) simp
next
  case (Suc k)
  then have le: "i \<le> blockIdx" by simp
  define b where "b = length (block_heap s)"
  define s1 where "s1 = s\<lparr>block_heap := block_heap s @ [zero_block],
                          vec_heap := (vec_heap s)[nb := Some (vec[nat i := Some b])]\<rparr>"
  have step: "fill_blocks nb i blockIdx s = fill_blocks nb (i + 1) blockIdx s1"
    using le Suc.prems
    by (subst fill_blocks.simps) (simp add: chpl_priv_block_create_def s1_def b_def)
  have "\<exists>vec'. fill_blocks nb (i + 1) blockIdx s1 =
            Inr (s1\<lparr>block_heap := block_heap s1 @ replicate k zero_block,
                   vec_heap := (vec_heap s1)[nb := Some vec']\<rparr>) \<and>
          length vec' = length (vec[nat i := Some b]) \<and>
          (\<forall>j. j < nat (i + 1) \<longrightarrow> vec' ! j = vec[nat i := Some b] ! j) \<and>
          (\<forall>j. nat (i + 1) \<le> j \<and> j \<le> nat blockIdx \<longrightarrow> vec' ! j = Some (length (block_heap s1) + (j - nat (i + 1)))) \<and>
          (\<forall>j. nat blockIdx < j \<longrightarrow> vec' ! j = vec[nat i := Some b] ! j)"
    using Suc.prems le by (intro Suc.IH) (auto simp: s1_def)
  then obtain vec' where v:
    "fill_blocks nb (i + 1) blockIdx s1 =
            Inr (s1\<lparr>block_heap := block_heap s1 @ replicate k zero_block,
                   vec_heap := (vec_heap s1)[nb := Some vec']\<rparr>)"
    "length vec' = length vec"
    "\<And>j. j < nat (i + 1) \<Longrightarrow> vec' ! j = vec[nat i := Some b] ! j"
    "\<And>j. nat (i + 1) \<le> j \<Longrightarrow> j \<le> nat blockIdx \<Longrightarrow> vec' ! j = Some (length (block_heap s1) + (j - nat (i + 1)))"
    "\<And>j. nat blockIdx < j \<Longrightarrow> vec' ! j = vec[nat i := Some b] ! j"
    by auto
  have eq: "s1\<lparr>block_heap := block_heap s1 @ replicate k zero_block,
                   vec_heap := (vec_heap s1)[nb := Some vec']\<rparr> =
            s\<lparr>block_heap := block_heap s @ replicate (Suc k) zero_block,
                   vec_heap := (vec_heap s)[nb := Some vec']\<rparr>"
    by (simp add: s1_def)
  have ni: "nat (i + 1) = Suc (nat i)" using Suc.prems by simp
  have ilt: "nat i < length vec" using Suc.prems le by simp
  have p1: "\<forall>j. j < nat i \<longrightarrow> vec' ! j = vec ! j"
    using v(3) ni by simp
  have p2: "\<forall>j. nat i \<le> j \<and> j \<le> nat blockIdx \<longrightarrow> vec' ! j = Some (length (block_heap s) + (j - nat i))"
  proof (intro allI impI)
    fix j assume j: "nat i \<le> j \<and> j \<le> nat blockIdx"
    show "vec' ! j = Some (length (block_heap s) + (j - nat i))"
    proof (cases "j = nat i")
      case True
      with v(3) [of j] ni ilt show ?thesis by (simp add: b_def)
    next
      case False
      with j have "nat (i + 1) \<le> j" "j \<le> nat blockIdx" using ni by auto
      from v(4) [OF this] False j ni show ?thesis by (auto simp: s1_def)
    qed
  qed
  have p3: "\<forall>j. nat blockIdx < j \<longrightarrow> vec' ! j = vec ! j"
    using v(5) le Suc.prems by simp
  from step v(1) eq v(2) p1 p2 p3 show ?case by auto
qed


lemma to_int_id: "- (2 ^ 31) \<le> x \<Longrightarrow> x < 2 ^ 31 \<Longrightarrow> to_int x = x"
  unfolding to_int_def by (simp add: mod_pos_pos_trivial)

lemma to_size_t_id: "0 \<le> x \<Longrightarrow> x < 2 ^ 64 \<Longrightarrow> to_size_t x = nat x"
  unfolding to_size_t_def by (simp add: mod_pos_pos_trivial)

lemma live_iff: "(case r of None \<Rightarrow> False | Some b \<Rightarrow> P b) \<longleftrightarrow> (\<exists>a. r = Some a \<and> P a)"
  by (cases r) auto

lemma store_ok_alt:
  "store_ok s \<longleftrightarrow>
     length (chpl_priv_instances s) = 2 \<and> currentInstanceIdx s < 2 \<and>
     (\<exists>p vec. blocks (cur_instance s) = Some p \<and> p < length (vec_heap s) \<and> vec_heap s ! p = Some vec \<and>
        length vec = len (cur_instance s) \<and> 0 < length vec \<and> int (length vec) \<le> INT_MAX \<and>
        distinct vec \<and>
        (\<forall>j<length vec. \<exists>a. vec ! j = Some a \<and> a < length (block_heap s) \<and>
            int (length (block_heap s ! a)) = CHPL_PRIVATIZATION_BLOCK_SIZE))"
proof -
  have cv: "cur_vec s = Some vec \<longleftrightarrow>
      (\<exists>p. blocks (cur_instance s) = Some p \<and> p < length (vec_heap s) \<and> vec_heap s ! p = Some vec)" for vec
    by (auto simp: cur_vec_def split: option.splits)
  have "store_ok s \<longleftrightarrow>
     length (chpl_priv_instances s) = 2 \<and> currentInstanceIdx s < 2 \<and>
     (\<exists>vec. cur_vec s = Some vec \<and>
        length vec = len (cur_instance s) \<and> 0 < length vec \<and> int (length vec) \<le> INT_MAX \<and>
        distinct vec \<and>
        (\<forall>j<length vec. \<exists>a. vec ! j = Some a \<and> a < length (block_heap s) \<and>
            int (length (block_heap s ! a)) = CHPL_PRIVATIZATION_BLOCK_SIZE))"
    unfolding store_ok_def list_all_length live_iff
    by (cases "cur_vec s") simp_all
  then show ?thesis unfolding cv by blast
qed


lemma zero_block_nth: "0 \<le> i \<Longrightarrow> i < CHPL_PRIVATIZATION_BLOCK_SIZE \<Longrightarrow> zero_block ! nat i = 0"
  unfolding zero_block_def CHPL_PRIVATIZATION_BLOCK_SIZE_def
  by (intro nth_replicate) simp

lemma length_zero_block: "int (length zero_block) = CHPL_PRIVATIZATION_BLOCK_SIZE"
  by (simp add: zero_block_def CHPL_PRIVATIZATION_BLOCK_SIZE_def)

lemma cur_vecI:
  "blocks (cur_instance s) = Some p \<Longrightarrow> p < length (vec_heap s) \<Longrightarrow> cur_vec s = vec_heap s ! p"
  by (simp add: cur_vec_def)

text \<open>Growing from a well-formed state, and freeing the old vector afterwards: the state
  \<open>s4\<close> that \<open>grow_instance\<close> leaves (new instance built, index swapped, old vector still
  allocated) and the state \<open>s5\<close> after \<open>chpl_mem_free\<close> of the old vector.\<close>

lemma grow_then_free:
  assumes ok: "store_ok s"
    and b: "int (len (cur_instance s)) \<le> blockIdx" "blockIdx < INT_MAX"
  shows "\<exists>p s4 s5. blocks (cur_instance s) = Some p \<and> p < length (vec_heap s) \<and>
      vec_heap s ! p \<noteq> None \<and>
      0 < to_int (int (to_size_t (blockIdx + 1)) - int (len (cur_instance s))) \<and>
      grow_instance blockIdx (currentInstanceIdx s) s = Inr s4 \<and>
      tls_list s4 = tls_list s \<and>
      blocks (chpl_priv_instances s4 ! currentInstanceIdx s) = Some p \<and>
      vec_heap s4 ! p \<noteq> None \<and> store_ok s4 \<and>
      currentInstanceIdx s4 = 1 - currentInstanceIdx s \<and>
      blocks (cur_instance s4) = Some (length (vec_heap s)) \<and>
      free_vec (Some p) s4 = Inr s5 \<and> vec_heap s5 ! p = None \<and> store_ok s5 \<and>
      blocks (cur_instance s5) = Some (length (vec_heap s)) \<and>
      tls_list s5 = tls_list s \<and> reader_tls s5 = reader_tls s \<and>
      len (cur_instance s5) = nat (blockIdx + 1) \<and>
      length (vec_heap s5) = Suc (length (vec_heap s)) \<and>
      currentInstanceIdx s5 = 1 - currentInstanceIdx s \<and>
      (\<forall>b' i'. b' < int (len (cur_instance s)) \<longrightarrow>
         load_slot s5 (currentInstanceIdx s5) b' i' = load_slot s (currentInstanceIdx s) b' i') \<and>
      (\<forall>b' i'. int (len (cur_instance s)) \<le> b' \<and> b' \<le> blockIdx \<and> 0 \<le> i' \<and>
         i' < CHPL_PRIVATIZATION_BLOCK_SIZE \<longrightarrow>
         load_slot s5 (currentInstanceIdx s5) b' i' = Inr 0)"
proof -
  from ok obtain p vec where
    l2: "length (chpl_priv_instances s) = 2" and c2: "currentInstanceIdx s < 2"
    and p: "blocks (cur_instance s) = Some p" "p < length (vec_heap s)" "vec_heap s ! p = Some vec"
    and lv: "length vec = len (cur_instance s)" "0 < length vec" "int (length vec) \<le> INT_MAX"
    and dv: "distinct vec"
    and bv: "\<And>j. j < length vec \<Longrightarrow> \<exists>a. vec ! j = Some a \<and> a < length (block_heap s) \<and>
            int (length (block_heap s ! a)) = CHPL_PRIVATIZATION_BLOCK_SIZE"
    unfolding store_ok_alt by blast
  define c where "c = currentInstanceIdx s"
  define L where "L = length vec"
  define n where "n = nat (blockIdx + 1)"
  define nb where "nb = length (vec_heap s)"
  define k where "k = nat (blockIdx + 1 - int L)"
  define vec2 where "vec2 = take L vec @ drop L (replicate n (None :: addr option))"
  define s1 where "s1 = s\<lparr>vec_heap := vec_heap s @ [Some (replicate n None)]\<rparr>"
  define s2 where "s2 = s1\<lparr>vec_heap := (vec_heap s1)[nb := Some vec2]\<rparr>"
  have bnn: "0 \<le> blockIdx" "int L \<le> blockIdx" "L < n" "0 < L" "int n = blockIdx + 1" "blockIdx + 1 < 2 ^ 31"
    using b lv by (auto simp: L_def n_def INT_MAX_def)
  have old: "chpl_priv_instances s ! c = cur_instance s"
    by (simp add: cur_instance_def c_def)
  have tsz: "to_size_t (blockIdx + 1) = n"
    using bnn by (simp add: to_size_t_id n_def)
  have alloc: "alloc_vec (to_size_t (blockIdx + 1)) s = (nb, s1)"
    by (simp add: alloc_vec_def tsz nb_def s1_def)
  have copy: "copy_blocks nb (blocks (cur_instance s)) (len (cur_instance s)) s1 = Inr s2"
    using p lv bnn
    by (simp add: copy_blocks_def s1_def s2_def nb_def nth_append vec2_def L_def)
  have lv2: "length vec2 = n" using bnn by (simp add: vec2_def L_def)
  have "\<exists>vec'. fill_blocks nb (int L) blockIdx s2 =
            Inr (s2\<lparr>block_heap := block_heap s2 @ replicate k zero_block,
                   vec_heap := (vec_heap s2)[nb := Some vec']\<rparr>) \<and>
          length vec' = length vec2 \<and>
          (\<forall>j. j < nat (int L) \<longrightarrow> vec' ! j = vec2 ! j) \<and>
          (\<forall>j. nat (int L) \<le> j \<and> j \<le> nat blockIdx \<longrightarrow> vec' ! j = Some (length (block_heap s2) + (j - nat (int L)))) \<and>
          (\<forall>j. nat blockIdx < j \<longrightarrow> vec' ! j = vec2 ! j)"
    using bnn b lv2 by (intro fill_blocks_ok) (auto simp: k_def s2_def s1_def nb_def)
  then obtain vec' where
    fill: "fill_blocks nb (int L) blockIdx s2 =
            Inr (s2\<lparr>block_heap := block_heap s2 @ replicate k zero_block,
                   vec_heap := (vec_heap s2)[nb := Some vec']\<rparr>)"
    and lv': "length vec' = n"
    and lo: "\<And>j. j < L \<Longrightarrow> vec' ! j = vec ! j"
    and hi: "\<And>j. L \<le> j \<Longrightarrow> j < n \<Longrightarrow> vec' ! j = Some (length (block_heap s) + (j - L))"
    using lv2 bnn by (auto simp: vec2_def nth_append L_def s2_def s1_def n_def)
  define s5 where "s5 = s\<lparr> block_heap := block_heap s @ replicate k zero_block,
       vec_heap := (vec_heap s @ [Some vec'])[p := None],
       chpl_priv_instances := (chpl_priv_instances s)[1 - c := \<lparr>blocks = Some nb, len = n\<rparr>],
       currentInstanceIdx := 1 - c \<rparr>"
  define s4 where "s4 = s\<lparr> block_heap := block_heap s @ replicate k zero_block,
       vec_heap := vec_heap s @ [Some vec'],
       chpl_priv_instances := (chpl_priv_instances s)[1 - c := \<lparr>blocks = Some nb, len = n\<rparr>],
       currentInstanceIdx := 1 - c \<rparr>"
  have ti: "to_int (int L) = int L"
    using lv by (intro to_int_id) (auto simp: L_def INT_MAX_def)
  have s3eq: "s2\<lparr>block_heap := block_heap s2 @ replicate k zero_block,
                   vec_heap := (vec_heap s2)[nb := Some vec']\<rparr> =
       s\<lparr> block_heap := block_heap s @ replicate k zero_block, vec_heap := vec_heap s @ [Some vec'] \<rparr>"
    by (simp add: s2_def s1_def nb_def)
  have nidx: "(if getCurrentInstanceIdx s = 0 then 1 else 0 :: nat) = 1 - c"
    using c2 by (auto simp: getCurrentInstanceIdx_def c_def)
  have fill': "fill_blocks nb (to_int (int (len (cur_instance s)))) blockIdx s2 =
       Inr (s\<lparr> block_heap := block_heap s @ replicate k zero_block, vec_heap := vec_heap s @ [Some vec'] \<rparr>)"
    using fill ti lv(1) unfolding s3eq L_def by simp
  have grow: "grow_instance blockIdx c s = Inr s4"
    unfolding grow_instance_def nidx old Let_def alloc
    using l2 c2 by (simp add: copy fill' tsz s4_def c_def)
  have delta: "to_int (int (to_size_t (blockIdx + 1)) - int (len (cur_instance s))) = blockIdx + 1 - int L"
    unfolding tsz using bnn lv by (intro trans [OF to_int_id]) (auto simp: L_def)
  have ne: "1 - c \<noteq> c" by arith
  have oldb: "blocks (chpl_priv_instances s4 ! c) = Some p"
    using ne p(1) by (simp add: s4_def old)
  have free: "free_vec (Some p) s4 = Inr s5"
    using p by (simp add: free_vec_def s4_def s5_def nth_append)
  have ci5: "cur_instance s5 = \<lparr>blocks = Some nb, len = n\<rparr>"
    using l2 c2 by (simp add: s5_def cur_instance_def c_def)
  have vh5: "vec_heap s5 ! nb = Some vec'" "nb < length (vec_heap s5)"
    using p(2) by (simp_all add: s5_def nb_def nth_list_update)
  have bh5: "block_heap s5 = block_heap s @ replicate k zero_block"
    by (simp add: s5_def)
  have ent: "\<exists>a. vec' ! j = Some a \<and> a < length (block_heap s5) \<and>
            int (length (block_heap s5 ! a)) = CHPL_PRIVATIZATION_BLOCK_SIZE" if "j < n" for j
  proof (cases "j < L")
    case True
    with bv [of j] lo [of j] show ?thesis by (auto simp: L_def bh5 nth_append)
  next
    case False
    with that hi [of j] bnn show ?thesis
      by (auto simp: bh5 nth_append k_def n_def length_zero_block)
  qed
  have dist: "distinct vec'"
    unfolding distinct_conv_nth lv'
  proof (intro allI impI)
    fix i j assume ij: "i < n" "j < n" "i \<noteq> j"
    show "vec' ! i \<noteq> vec' ! j"
    proof (cases "i < L"; cases "j < L")
      assume "i < L" "j < L"
      with ij dv lo [of i] lo [of j] show ?thesis
        by (simp add: nth_eq_iff_index_eq L_def)
    next
      assume "i < L" "\<not> j < L"
      with ij bv [of i] lo [of i] hi [of j] show ?thesis by (auto simp: L_def)
    next
      assume "\<not> i < L" "j < L"
      with ij bv [of j] lo [of j] hi [of i] show ?thesis by (auto simp: L_def)
    next
      assume "\<not> i < L" "\<not> j < L"
      with ij hi [of i] hi [of j] show ?thesis by auto
    qed
  qed
  have ok5: "store_ok s5"
    unfolding store_ok_alt
    using l2 c2 ci5 vh5 lv' bnn dist ent
    by (auto simp: s5_def INT_MAX_def)
  have ci4: "cur_instance s4 = \<lparr>blocks = Some nb, len = n\<rparr>"
    using l2 c2 by (simp add: s4_def cur_instance_def c_def)
  have vh4: "vec_heap s4 ! nb = Some vec'" "nb < length (vec_heap s4)"
    by (simp_all add: s4_def nb_def)
  have bh4: "block_heap s4 = block_heap s5"
    by (simp add: s4_def s5_def)
  have ok4: "store_ok s4"
    unfolding store_ok_alt bh4
    using l2 c2 ci4 vh4 lv' bnn dist ent
    by (auto simp: s4_def INT_MAX_def)
  have len5: "len (cur_instance s5) = nat (blockIdx + 1)"
    by (simp add: ci5 n_def)
  have cv5: "cur_vec s5 = Some vec'"
    using cur_vecI [of s5 nb] ci5 vh5 by simp
  have cv: "cur_vec s = Some vec"
    using cur_vecI [OF p(1,2)] p(3) by simp
  have low: "load_slot s5 (currentInstanceIdx s5) b' i' = load_slot s (currentInstanceIdx s) b' i'"
    if "b' < int (len (cur_instance s))" for b' i'
  proof (cases "b' < 0")
    case True
    then show ?thesis using load_slot_out [OF ok5] load_slot_out [OF ok] by simp
  next
    case False
    with that have r: "0 \<le> b'" "b' < int (len (cur_instance s))" "b' < int (len (cur_instance s5))"
      using bnn lv by (auto simp: len5 L_def)
    from block_at_in [OF ok r(1,2)] cv obtain a where
      a: "vec ! nat b' = Some a" "block_at s (currentInstanceIdx s) b' = Inr a" "a < length (block_heap s)"
      by auto
    from block_at_in [OF ok5 r(1,3)] cv5 obtain a' where
      a': "vec' ! nat b' = Some a'" "block_at s5 (currentInstanceIdx s5) b' = Inr a'"
      by auto
    from r lv have "nat b' < L" by (simp add: L_def)
    from lo [OF this] a a' have "a' = a" by simp
    with a a' show ?thesis by (simp add: load_slot_def bh5 nth_append)
  qed
  have high: "load_slot s5 (currentInstanceIdx s5) b' i' = Inr 0"
    if "int (len (cur_instance s)) \<le> b' \<and> b' \<le> blockIdx \<and> 0 \<le> i' \<and> i' < CHPL_PRIVATIZATION_BLOCK_SIZE" for b' i'
  proof -
    from that have r: "0 \<le> b'" "b' < int (len (cur_instance s5))" "L \<le> nat b'" "nat b' < n"
      using bnn lv by (auto simp: len5 L_def n_def)
    from block_at_in [OF ok5 r(1,2)] cv5 obtain a' where
      a': "vec' ! nat b' = Some a'" "block_at s5 (currentInstanceIdx s5) b' = Inr a'"
      by auto
    from hi [OF r(3,4)] a' have "a' = length (block_heap s) + (nat b' - L)" by simp
    moreover have "nat b' - L < k" using r bnn by (simp add: k_def n_def)
    ultimately show ?thesis using a' that
      by (simp add: load_slot_def bh5 nth_append zero_block_nth length_zero_block)
  qed
  have dpos: "0 < to_int (int (to_size_t (blockIdx + 1)) - int (len (cur_instance s)))"
    unfolding delta using bnn by simp
  have pf: "vec_heap s ! p \<noteq> None" "vec_heap s4 ! p \<noteq> None" "vec_heap s5 ! p = None"
    using p by (simp_all add: s4_def s5_def nth_append)
  have fr: "tls_list s4 = tls_list s" "currentInstanceIdx s4 = 1 - currentInstanceIdx s"
    "tls_list s5 = tls_list s" "reader_tls s5 = reader_tls s"
    "length (vec_heap s5) = Suc (length (vec_heap s))"
    "currentInstanceIdx s5 = 1 - currentInstanceIdx s"
    by (simp_all add: s4_def s5_def c_def)
  have cb: "blocks (cur_instance s4) = Some (length (vec_heap s))"
    "blocks (cur_instance s5) = Some (length (vec_heap s))"
    by (simp_all add: ci4 ci5 nb_def)
  from p(1,2) pf dpos grow oldb ok4 free ok5 len5 low high fr cb show ?thesis
    unfolding c_def by blast
qed

lemma write_section_grow_gen:
  assumes ok: "store_ok s"
    and b: "int (len (cur_instance s)) \<le> blockIdx" "blockIdx < INT_MAX"
  shows "(\<not> quiescent s (currentInstanceIdx s) \<longrightarrow> write_section blockIdx s = None) \<and>
    (quiescent s (currentInstanceIdx s) \<longrightarrow>
     (\<exists>s'. write_section blockIdx s = Some (Inr s') \<and> store_ok s' \<and>
      (\<exists>p. blocks (cur_instance s) = Some p \<and> p < length (vec_heap s) \<and>
           vec_heap s ! p \<noteq> None \<and> vec_heap s' ! p = None) \<and>
      tls_list s' = tls_list s \<and> reader_tls s' = reader_tls s \<and>
      len (cur_instance s') = nat (blockIdx + 1) \<and>
      length (vec_heap s') = Suc (length (vec_heap s)) \<and>
      currentInstanceIdx s' = 1 - currentInstanceIdx s \<and>
      (\<forall>b' i'. b' < int (len (cur_instance s)) \<longrightarrow>
         load_slot s' (currentInstanceIdx s') b' i' = load_slot s (currentInstanceIdx s) b' i') \<and>
      (\<forall>b' i'. int (len (cur_instance s)) \<le> b' \<and> b' \<le> blockIdx \<and> 0 \<le> i' \<and>
         i' < CHPL_PRIVATIZATION_BLOCK_SIZE \<longrightarrow>
         load_slot s' (currentInstanceIdx s') b' i' = Inr 0)))"
proof -
  from grow_then_free [OF assms] obtain p s4 s5 where
    p: "blocks (cur_instance s) = Some p" "p < length (vec_heap s)" "vec_heap s ! p \<noteq> None"
    and d: "0 < to_int (int (to_size_t (blockIdx + 1)) - int (len (cur_instance s)))"
    and g: "grow_instance blockIdx (currentInstanceIdx s) s = Inr s4" "tls_list s4 = tls_list s"
      "blocks (chpl_priv_instances s4 ! currentInstanceIdx s) = Some p"
    and f: "free_vec (Some p) s4 = Inr s5" "vec_heap s5 ! p = None" "store_ok s5"
    and r: "tls_list s5 = tls_list s \<and> reader_tls s5 = reader_tls s \<and>
      len (cur_instance s5) = nat (blockIdx + 1) \<and>
      length (vec_heap s5) = Suc (length (vec_heap s)) \<and>
      currentInstanceIdx s5 = 1 - currentInstanceIdx s \<and>
      (\<forall>b' i'. b' < int (len (cur_instance s)) \<longrightarrow>
         load_slot s5 (currentInstanceIdx s5) b' i' = load_slot s (currentInstanceIdx s) b' i') \<and>
      (\<forall>b' i'. int (len (cur_instance s)) \<le> b' \<and> b' \<le> blockIdx \<and> 0 \<le> i' \<and>
         i' < CHPL_PRIVATIZATION_BLOCK_SIZE \<longrightarrow>
         load_slot s5 (currentInstanceIdx s5) b' i' = Inr 0)"
    by blast
  from ok have l2: "length (chpl_priv_instances s) = 2" "currentInstanceIdx s < 2"
    by (simp_all add: store_ok_def)
  have nm: "blockIdx \<noteq> INT_MAX" using b by simp
  have old: "chpl_priv_instances s ! currentInstanceIdx s = cur_instance s"
    by (simp add: cur_instance_def)
  have wait: "wait_for_readers (tls_list s4) (currentInstanceIdx s) = Some ()"
    if "quiescent s (currentInstanceIdx s)"
    using that by (simp add: wait_for_readers_iff quiescent_def g(2))
  have nowait: "wait_for_readers (tls_list s4) (currentInstanceIdx s) = None"
    if "\<not> quiescent s (currentInstanceIdx s)"
    using that wait_for_readers_iff [of "tls_list s4" "currentInstanceIdx s"]
    by (cases "wait_for_readers (tls_list s4) (currentInstanceIdx s)")
       (simp_all add: quiescent_def g(2))
  have ws: "write_section blockIdx s = Some (Inr s5)" if "quiescent s (currentInstanceIdx s)"
    unfolding write_section_def Let_def
    using l2 nm d
    by (simp add: getCurrentInstanceIdx_def old g(1,3) wait [OF that] f(1))
  have ws_none: "write_section blockIdx s = None" if "\<not> quiescent s (currentInstanceIdx s)"
    unfolding write_section_def Let_def
    using l2 nm d
    by (simp add: getCurrentInstanceIdx_def old g(1) nowait [OF that])
  from ws ws_none p f(2,3) r show ?thesis by blast
qed


lemma tls_ok_quiescent: "tls_ok s \<Longrightarrow> i < 2 \<Longrightarrow> quiescent s i"
  using wait_idle [of s i] by (simp add: wait_for_readers_iff quiescent_def)

lemma write_section_grow:
  assumes ok: "store_ok s" and tls: "tls_ok s"
    and b: "int (len (cur_instance s)) \<le> blockIdx" "blockIdx < INT_MAX"
  shows "\<exists>s'. write_section blockIdx s = Some (Inr s') \<and> store_ok s' \<and>
      tls_list s' = tls_list s \<and> reader_tls s' = reader_tls s \<and>
      len (cur_instance s') = nat (blockIdx + 1) \<and>
      length (vec_heap s') = Suc (length (vec_heap s)) \<and>
      currentInstanceIdx s' = 1 - currentInstanceIdx s \<and>
      (\<forall>b' i'. b' < int (len (cur_instance s)) \<longrightarrow>
         load_slot s' (currentInstanceIdx s') b' i' = load_slot s (currentInstanceIdx s) b' i') \<and>
      (\<forall>b' i'. int (len (cur_instance s)) \<le> b' \<and> b' \<le> blockIdx \<and> 0 \<le> i' \<and>
         i' < CHPL_PRIVATIZATION_BLOCK_SIZE \<longrightarrow>
         load_slot s' (currentInstanceIdx s') b' i' = Inr 0)"
proof -
  from ok have "currentInstanceIdx s < 2" by (simp add: store_ok_def)
  from tls_ok_quiescent [OF tls this] write_section_grow_gen [OF ok b]
  show ?thesis by blast
qed



subsection \<open>Pid arithmetic\<close>

lemma sdiv_nonneg: "0 \<le> (k::int) \<Longrightarrow> 0 < l \<Longrightarrow> k sdiv l = k div l"
  by (simp add: signed_divide_int_def sgn_if)

lemma smod_nonneg: "0 \<le> (k::int) \<Longrightarrow> 0 < l \<Longrightarrow> k smod l = k mod l"
  by (simp add: signed_modulo_int_def signed_divide_int_def sgn_if)

lemma idx_of_nonneg: "0 \<le> sint pid \<Longrightarrow> idx_of pid = sint pid mod CHPL_PRIVATIZATION_BLOCK_SIZE"
  unfolding idx_of_def CHPL_PRIVATIZATION_BLOCK_SIZE_def
  by (simp add: smod_nonneg to_int_id)

lemma blockIdx_of_small:
  assumes "0 \<le> sint pid" "sint pid < 2 ^ 41"
  shows "blockIdx_of pid = sint pid div CHPL_PRIVATIZATION_BLOCK_SIZE"
proof -
  have "sint pid div 1024 < 2 ^ 31" using assms by simp
  moreover have "0 \<le> sint pid div 1024" using assms by simp
  ultimately show ?thesis
    unfolding blockIdx_of_def CHPL_PRIVATIZATION_BLOCK_SIZE_def
    using assms by (simp add: sdiv_nonneg to_int_id)
qed

subsection \<open>Read sections: get, clear, capacity\<close>

lemma tls_reading_cong:
  "tls_list s' = tls_list s \<Longrightarrow> reader_tls s' = reader_tls s \<Longrightarrow> tls_reading s' = tls_reading s"
  by (simp add: tls_reading_def cong: option.case_cong)

lemma tls_ok_cong:
  "tls_list s' = tls_list s \<Longrightarrow> reader_tls s' = reader_tls s \<Longrightarrow> tls_ok s' = tls_ok s"
  by (simp add: tls_ok_def cong: option.case_cong)

lemma same_store_cur: "same_store s t \<Longrightarrow> currentInstanceIdx t = currentInstanceIdx s"
  by (simp add: same_store_def)

lemma same_store_trans: "same_store s t \<Longrightarrow> same_store t u \<Longrightarrow> same_store s u"
  by (simp add: same_store_def)

lemma get_ok:
  assumes "registry_ok s"
  shows "\<exists>s'. same_store s s' \<and> tls_ok s' \<and>
     chpl_getPrivatizedClass pid s =
       (case load_slot s (currentInstanceIdx s) (blockIdx_of pid) (idx_of pid) of
          Inl e \<Rightarrow> Inl e | Inr v \<Rightarrow> Inr (v, s'))"
proof -
  from assms have t: "tls_ok s" by (simp add: registry_ok_def)
  from acquireRead_ok [OF t] obtain s1 where
    s1: "acquireRead s = Inr (currentInstanceIdx s, s1)" "same_store s s1" "tls_reading s1"
    by blast
  from releaseRead_ok [OF s1(3)] obtain s2 where
    s2: "releaseRead (currentInstanceIdx s) s1 = Inr s2" "same_store s1 s2" "tls_ok s2"
    by blast
  have "chpl_getPrivatizedClass pid s =
       (case load_slot s (currentInstanceIdx s) (blockIdx_of pid) (idx_of pid) of
          Inl e \<Rightarrow> Inl e | Inr v \<Rightarrow> Inr (v, s2))"
    by (simp add: chpl_getPrivatizedClass_def s1(1) s2(1) same_store_load [OF s1(2), symmetric]
        split: sum.splits)
  with same_store_trans [OF s1(2) s2(2)] s2(3) show ?thesis by blast
qed

lemma get_value_eq:
  assumes "registry_ok s"
  shows "get_value pid s = load_slot s (currentInstanceIdx s) (blockIdx_of pid) (idx_of pid)"
  using get_ok [OF assms, of pid]
  by (cases "load_slot s (currentInstanceIdx s) (blockIdx_of pid) (idx_of pid)")
     (auto simp: get_value_def)

lemma registry_ok_same: "same_store s t \<Longrightarrow> registry_ok s \<Longrightarrow> tls_ok t \<Longrightarrow> registry_ok t"
  using same_store_ok [of s t] by (simp add: registry_ok_def)

lemma get_sound:
  assumes "registry_ok s" "chpl_getPrivatizedClass pid s = Inr (v, s')"
  shows "registry_ok s' \<and> same_store s s'"
  using get_ok [OF assms(1), of pid] assms
  by (cases "load_slot s (currentInstanceIdx s) (blockIdx_of pid) (idx_of pid)")
     (auto intro: registry_ok_same)

lemma store_slot_InrD:
  assumes "store_ok s" "store_slot s (currentInstanceIdx s) b i v = Inr s'"
  shows "0 \<le> b \<and> b < int (len (cur_instance s)) \<and> 0 \<le> i \<and> i < CHPL_PRIVATIZATION_BLOCK_SIZE"
proof (cases "b < 0 \<or> int (len (cur_instance s)) \<le> b")
  case True
  from block_at_out [OF assms(1) True] assms(2) show ?thesis by (simp add: store_slot_def)
next
  case False
  then have r: "0 \<le> b" "b < int (len (cur_instance s))" by auto
  from block_at_in [OF assms(1) r] assms(2) r show ?thesis
    by (auto simp: store_slot_def split: if_splits)
qed


lemma rw_section:
  assumes ok: "registry_ok s"
    and r: "0 \<le> b" "b < int (len (cur_instance s))" "0 \<le> i" "i < CHPL_PRIVATIZATION_BLOCK_SIZE"
  shows "\<exists>s1 s2 s3. acquireRead s = Inr (currentInstanceIdx s, s1) \<and>
           cur_instance s1 = cur_instance s \<and> length (chpl_priv_instances s1) = 2 \<and>
           currentInstanceIdx s < 2 \<and>
           store_slot s1 (currentInstanceIdx s) b i v = Inr s2 \<and>
           releaseRead (currentInstanceIdx s) s2 = Inr s3 \<and>
           registry_ok s3 \<and> cur_instance s3 = cur_instance s \<and>
           currentInstanceIdx s3 = currentInstanceIdx s \<and>
           vec_heap s3 = vec_heap s \<and> chpl_priv_instances s3 = chpl_priv_instances s \<and>
           load_slot s3 (currentInstanceIdx s) b i = Inr v \<and>
           (\<forall>b' i'. (b', i') \<noteq> (b, i) \<longrightarrow>
              load_slot s3 (currentInstanceIdx s) b' i' = load_slot s (currentInstanceIdx s) b' i')"
proof -
  from ok have t: "tls_ok s" and so: "store_ok s" by (simp_all add: registry_ok_def)
  from acquireRead_ok [OF t] obtain s1 where
    s1: "acquireRead s = Inr (currentInstanceIdx s, s1)" "same_store s s1" "tls_reading s1"
    by blast
  have c1: "currentInstanceIdx s1 = currentInstanceIdx s" "cur_instance s1 = cur_instance s"
    using s1(2) by (simp_all add: same_store_def cur_instance_def)
  have so1: "store_ok s1" using same_store_ok [OF s1(2)] so by simp
  from store_slot_in [OF so1, of b i v] r c1 obtain s2 where
    s2: "store_slot s1 (currentInstanceIdx s) b i v = Inr s2" "store_ok s2"
      "cur_instance s2 = cur_instance s" "currentInstanceIdx s2 = currentInstanceIdx s"
      "tls_list s2 = tls_list s1" "reader_tls s2 = reader_tls s1"
      "load_slot s2 (currentInstanceIdx s) b i = Inr v"
      "\<And>b' i'. (b', i') \<noteq> (b, i) \<Longrightarrow>
          load_slot s2 (currentInstanceIdx s) b' i' = load_slot s1 (currentInstanceIdx s) b' i'"
    by auto
  have sh2: "vec_heap s2 = vec_heap s1" "chpl_priv_instances s2 = chpl_priv_instances s1"
    using s2(1) by (auto simp: store_slot_def split: sum.splits if_splits)
  have "tls_reading s2" using tls_reading_cong [OF s2(5,6)] s1(3) by simp
  from releaseRead_ok [OF this] obtain s3 where
    s3: "releaseRead (currentInstanceIdx s) s2 = Inr s3" "same_store s2 s3" "tls_ok s3"
    by blast
  have ok3: "registry_ok s3"
    using same_store_ok [OF s3(2)] s2(2) s3(3) by (simp add: registry_ok_def)
  have sh3: "cur_instance s3 = cur_instance s" "currentInstanceIdx s3 = currentInstanceIdx s"
     "vec_heap s3 = vec_heap s" "chpl_priv_instances s3 = chpl_priv_instances s"
    using s3(2) s2(3,4) sh2 s1(2) by (simp_all add: same_store_def cur_instance_def)
  have l3: "load_slot s3 r c j = load_slot s2 r c j" for r c j
    using same_store_load [OF s3(2)] by simp
  have l1: "load_slot s1 r c j = load_slot s r c j" for r c j
    using same_store_load [OF s1(2)] by simp
  have ln: "length (chpl_priv_instances s1) = 2" "currentInstanceIdx s < 2"
    using so1 c1 by (simp_all add: store_ok_def)
  have f7: "load_slot s3 (currentInstanceIdx s) b i = Inr v"
    using s2(7) by (simp add: l3)
  have f8: "\<forall>b' i'. (b', i') \<noteq> (b, i) \<longrightarrow>
              load_slot s3 (currentInstanceIdx s) b' i' = load_slot s (currentInstanceIdx s) b' i'"
    using s2(8) by (simp add: l3 l1)
  from s1(1) c1(2) ln s2(1) s3(1) ok3 sh3 f7 f8 show ?thesis
    by blast
qed

lemma rw_section_out:
  assumes ok: "registry_ok s"
    and r: "\<not> (0 \<le> b \<and> b < int (len (cur_instance s)) \<and> 0 \<le> i \<and> i < CHPL_PRIVATIZATION_BLOCK_SIZE)"
  shows "\<exists>s1 e. acquireRead s = Inr (currentInstanceIdx s, s1) \<and>
           cur_instance s1 = cur_instance s \<and> length (chpl_priv_instances s1) = 2 \<and>
           currentInstanceIdx s < 2 \<and>
           store_slot s1 (currentInstanceIdx s) b i v = Inl e"
proof -
  from ok have t: "tls_ok s" and so: "store_ok s" by (simp_all add: registry_ok_def)
  from acquireRead_ok [OF t] obtain s1 where
    s1: "acquireRead s = Inr (currentInstanceIdx s, s1)" "same_store s s1" "tls_reading s1"
    by blast
  have c1: "currentInstanceIdx s1 = currentInstanceIdx s" "cur_instance s1 = cur_instance s"
    using s1(2) by (simp_all add: same_store_def cur_instance_def)
  have so1: "store_ok s1" using same_store_ok [OF s1(2)] so by simp
  have ln: "length (chpl_priv_instances s1) = 2" "currentInstanceIdx s < 2"
    using so1 c1 by (simp_all add: store_ok_def)
  have "\<exists>e. store_slot s1 (currentInstanceIdx s) b i v = Inl e"
    using store_slot_InrD [OF so1, of b i v] r c1
    by (cases "store_slot s1 (currentInstanceIdx s) b i v") auto
  with s1(1) c1(2) ln show ?thesis by blast
qed

lemma clear_in:
  assumes ok: "registry_ok s"
    and r: "0 \<le> blockIdx_of pid" "blockIdx_of pid < int (len (cur_instance s))"
       "0 \<le> idx_of pid" "idx_of pid < CHPL_PRIVATIZATION_BLOCK_SIZE"
  shows "\<exists>s'. chpl_clearPrivatizedClass pid s = Inr s' \<and>
           registry_ok s' \<and> cur_instance s' = cur_instance s \<and>
           currentInstanceIdx s' = currentInstanceIdx s \<and>
           vec_heap s' = vec_heap s \<and> chpl_priv_instances s' = chpl_priv_instances s \<and>
           load_slot s' (currentInstanceIdx s) (blockIdx_of pid) (idx_of pid) = Inr 0 \<and>
           (\<forall>b' i'. (b', i') \<noteq> slot_of pid \<longrightarrow>
              load_slot s' (currentInstanceIdx s) b' i' = load_slot s (currentInstanceIdx s) b' i')"
  using rw_section [OF ok r, of 0]
  by (auto simp: chpl_clearPrivatizedClass_def slot_of_def)

lemma clear_out:
  assumes ok: "registry_ok s"
    and r: "\<not> (0 \<le> blockIdx_of pid \<and> blockIdx_of pid < int (len (cur_instance s)) \<and>
       0 \<le> idx_of pid \<and> idx_of pid < CHPL_PRIVATIZATION_BLOCK_SIZE)"
  shows "\<exists>e. chpl_clearPrivatizedClass pid s = Inl e"
  using rw_section_out [OF ok r, of 0]
  by (auto simp: chpl_clearPrivatizedClass_def)

lemma sint_of_int64: "0 \<le> k \<Longrightarrow> k < 2 ^ 63 \<Longrightarrow> sint (word_of_int k :: 64 word) = k"
  by (simp add: sint_sbintrunc' signed_take_bit_int_eq_self)

lemma sint_of_nat64: "int x * 1024 < 2 ^ 63 \<Longrightarrow> sint (word_of_nat (x * 1024) :: 64 word) = int x * 1024"
  using sint_of_int64 [of "int x * 1024"] by simp

lemma capacity_ok:
  assumes ok: "registry_ok s"
  shows "\<exists>s'. chpl_numPrivatizedClasses s =
            Inr (int (len (cur_instance s)) * CHPL_PRIVATIZATION_BLOCK_SIZE, s') \<and>
          same_store s s' \<and> registry_ok s'"
proof -
  from ok have t: "tls_ok s" and so: "store_ok s" by (simp_all add: registry_ok_def)
  from acquireRead_ok [OF t] obtain s1 where
    s1: "acquireRead s = Inr (currentInstanceIdx s, s1)" "same_store s s1" "tls_reading s1"
    by blast
  from releaseRead_ok [OF s1(3)] obtain s2 where
    s2: "releaseRead (currentInstanceIdx s) s1 = Inr s2" "same_store s1 s2" "tls_ok s2"
    by blast
  have c1: "chpl_priv_instances s1 ! currentInstanceIdx s = cur_instance s"
    "length (chpl_priv_instances s1) = 2" "currentInstanceIdx s < 2"
    using s1(2) so by (simp_all add: same_store_def cur_instance_def store_ok_def)
  from so obtain vec :: "addr option list" where
    "length vec = len (cur_instance s)" "0 < length vec" "int (length vec) \<le> INT_MAX"
    unfolding store_ok_alt by blast
  then have b: "0 \<le> int (len (cur_instance s)) * 1024" "int (len (cur_instance s)) * 1024 < 2 ^ 63"
    by (simp_all add: INT_MAX_def)
  have "sint (word_of_nat (to_size_t (int (len (cur_instance s)) * 1024)) :: 64 word)
        = int (len (cur_instance s)) * 1024"
  proof -
    have n: "to_size_t (int (len (cur_instance s)) * 1024) = len (cur_instance s) * 1024"
      using b by (simp add: to_size_t_id nat_mult_distrib)
    from sint_of_nat64 [OF b(2)] show ?thesis unfolding n by simp
  qed
  then have "chpl_numPrivatizedClasses s =
            Inr (int (len (cur_instance s)) * CHPL_PRIVATIZATION_BLOCK_SIZE, s2)"
    using c1(3)
    by (simp add: chpl_numPrivatizedClasses_def s1(1) c1(1,2) s2(1) CHPL_PRIVATIZATION_BLOCK_SIZE_def)
  moreover have "same_store s s2" by (rule same_store_trans [OF s1(2) s2(2)])
  moreover have "registry_ok s2" by (rule registry_ok_same [OF \<open>same_store s s2\<close> ok s2(3)])
  ultimately show ?thesis by blast
qed

subsection \<open>Publish\<close>

lemma to_int_range: "- (2 ^ 31) \<le> to_int x \<and> to_int x < 2 ^ 31"
  unfolding to_int_def
  using pos_mod_bound [of "2 ^ 32 :: int" "x + 2 ^ 31"] pos_mod_sign [of "2 ^ 32 :: int" "x + 2 ^ 31"]
  by simp

lemma block_at_neg: "b < 0 \<Longrightarrow> \<exists>e. block_at s r b = Inl e"
  by (auto simp: block_at_def split: option.splits)

lemma copy_blocks_frame:
  "copy_blocks nb ob n s = Inr s' \<Longrightarrow> s' = s\<lparr>vec_heap := vec_heap s'\<rparr>"
  by (auto simp: copy_blocks_def split: option.splits if_splits)

lemma free_vec_frame:
  "free_vec ob s = Inr s' \<Longrightarrow> s' = s\<lparr>vec_heap := vec_heap s'\<rparr>"
  by (auto simp: free_vec_def split: option.splits if_splits)

lemma publish_iter_in:
  assumes ok: "registry_ok s"
    and r: "0 \<le> blockIdx_of pid" "blockIdx_of pid < int (len (cur_instance s))"
       "0 \<le> idx_of pid" "idx_of pid < CHPL_PRIVATIZATION_BLOCK_SIZE"
  shows "\<exists>s'. publish_iter v pid s = Some (Inr (True, s')) \<and>
           registry_ok s' \<and> cur_instance s' = cur_instance s \<and>
           currentInstanceIdx s' = currentInstanceIdx s \<and>
           vec_heap s' = vec_heap s \<and> chpl_priv_instances s' = chpl_priv_instances s \<and>
           load_slot s' (currentInstanceIdx s) (blockIdx_of pid) (idx_of pid) = Inr v \<and>
           (\<forall>b' i'. (b', i') \<noteq> slot_of pid \<longrightarrow>
              load_slot s' (currentInstanceIdx s) b' i' = load_slot s (currentInstanceIdx s) b' i')"
proof -
  have ts: "to_size_t (blockIdx_of pid) = nat (blockIdx_of pid)"
    using r(1) to_int_range [of "sint pid sdiv CHPL_PRIVATIZATION_BLOCK_SIZE"]
    by (intro to_size_t_id) (auto simp: blockIdx_of_def)
  from rw_section [OF ok r, of v] obtain s1 s2 s3 where f:
    "acquireRead s = Inr (currentInstanceIdx s, s1)"
    "cur_instance s1 = cur_instance s" "length (chpl_priv_instances s1) = 2"
    "currentInstanceIdx s < 2"
    "store_slot s1 (currentInstanceIdx s) (blockIdx_of pid) (idx_of pid) v = Inr s2"
    "releaseRead (currentInstanceIdx s) s2 = Inr s3"
    and g: "registry_ok s3 \<and> cur_instance s3 = cur_instance s \<and>
           currentInstanceIdx s3 = currentInstanceIdx s \<and>
           vec_heap s3 = vec_heap s \<and> chpl_priv_instances s3 = chpl_priv_instances s \<and>
           load_slot s3 (currentInstanceIdx s) (blockIdx_of pid) (idx_of pid) = Inr v \<and>
           (\<forall>b' i'. (b', i') \<noteq> (blockIdx_of pid, idx_of pid) \<longrightarrow>
              load_slot s3 (currentInstanceIdx s) b' i' = load_slot s (currentInstanceIdx s) b' i')"
    by blast
  have "acquireRead s = Inr (currentInstanceIdx s, s1) \<Longrightarrow>
        chpl_priv_instances s1 ! currentInstanceIdx s = cur_instance s"
    using f(2) by (auto simp: acquireRead_def cur_instance_def Let_def set_status_def
        split: option.splits if_splits sum.splits)
  with f(1) have ci: "chpl_priv_instances s1 ! currentInstanceIdx s = cur_instance s" by simp
  have nl: "\<not> len (cur_instance s) \<le> nat (blockIdx_of pid)" using r by linarith
  have "publish_iter v pid s = Some (Inr (True, s3))"
    using f nl by (simp add: publish_iter_def Let_def ci ts)
  with g show ?thesis unfolding slot_of_def by blast
qed


lemma publish_iter_in_bad:
  assumes ok: "registry_ok s"
    and r: "0 \<le> blockIdx_of pid" "blockIdx_of pid < int (len (cur_instance s))"
       "\<not> (0 \<le> idx_of pid \<and> idx_of pid < CHPL_PRIVATIZATION_BLOCK_SIZE)"
  shows "\<exists>e. publish_iter v pid s = Some (Inl e)"
proof -
  have ts: "to_size_t (blockIdx_of pid) = nat (blockIdx_of pid)"
    using r(1) to_int_range [of "sint pid sdiv CHPL_PRIVATIZATION_BLOCK_SIZE"]
    by (intro to_size_t_id) (auto simp: blockIdx_of_def)
  from r(3) have "\<not> (0 \<le> blockIdx_of pid \<and> blockIdx_of pid < int (len (cur_instance s)) \<and>
      0 \<le> idx_of pid \<and> idx_of pid < CHPL_PRIVATIZATION_BLOCK_SIZE)" by simp
  from rw_section_out [OF ok this, of v] obtain s1 e where f:
    "acquireRead s = Inr (currentInstanceIdx s, s1)"
    "cur_instance s1 = cur_instance s" "length (chpl_priv_instances s1) = 2"
    "currentInstanceIdx s < 2"
    "store_slot s1 (currentInstanceIdx s) (blockIdx_of pid) (idx_of pid) v = Inl e"
    by blast
  have "acquireRead s = Inr (currentInstanceIdx s, s1) \<Longrightarrow>
        chpl_priv_instances s1 ! currentInstanceIdx s = cur_instance s"
    using f(2) by (auto simp: acquireRead_def cur_instance_def Let_def set_status_def
        split: option.splits if_splits sum.splits)
  with f(1) have ci: "chpl_priv_instances s1 ! currentInstanceIdx s = cur_instance s" by simp
  have nl: "\<not> len (cur_instance s) \<le> nat (blockIdx_of pid)" using r by linarith
  have "publish_iter v pid s = Some (Inl e)"
    using f nl by (simp add: publish_iter_def Let_def ci ts)
  then show ?thesis by blast
qed

text \<open>The first half of a turn that upgrades to writer: the read section is left with
  the store untouched.\<close>

lemma publish_iter_upgrade:
  assumes ok: "registry_ok s"
    and r: "len (cur_instance s) \<le> to_size_t (blockIdx_of pid)"
  shows "\<exists>s2. same_store s s2 \<and> registry_ok s2 \<and>
           publish_iter v pid s =
             (case write_section (blockIdx_of pid) s2 of
                None \<Rightarrow> None
              | Some (Inl e) \<Rightarrow> Some (Inl e)
              | Some (Inr s3) \<Rightarrow> Some (Inr (False, s3)))"
proof -
  from ok have t: "tls_ok s" and so: "store_ok s" by (simp_all add: registry_ok_def)
  from acquireRead_ok [OF t] obtain s1 where
    s1: "acquireRead s = Inr (currentInstanceIdx s, s1)" "same_store s s1" "tls_reading s1"
    by blast
  from releaseRead_ok [OF s1(3)] obtain s2 where
    s2: "releaseRead (currentInstanceIdx s) s1 = Inr s2" "same_store s1 s2" "tls_ok s2"
    by blast
  have c1: "chpl_priv_instances s1 ! currentInstanceIdx s = cur_instance s"
    "length (chpl_priv_instances s1) = 2"
    using s1(2) so by (simp_all add: same_store_def cur_instance_def store_ok_def)
  have c2: "currentInstanceIdx s < 2" using so by (simp add: store_ok_def)
  have ss: "same_store s s2" by (rule same_store_trans [OF s1(2) s2(2)])
  have "publish_iter v pid s =
             (case write_section (blockIdx_of pid) s2 of
                None \<Rightarrow> None
              | Some (Inl e) \<Rightarrow> Some (Inl e)
              | Some (Inr s3) \<Rightarrow> Some (Inr (False, s3)))"
    using r c2 by (simp add: publish_iter_def Let_def s1(1) c1 s2(1))
  with ss registry_ok_same [OF ss ok s2(3)] show ?thesis by blast
qed

lemma publish_iter_grow:
  assumes ok: "registry_ok s"
    and r: "int (len (cur_instance s)) \<le> blockIdx_of pid" "blockIdx_of pid < INT_MAX"
  shows "\<exists>s'. publish_iter v pid s = Some (Inr (False, s')) \<and> registry_ok s' \<and>
      len (cur_instance s') = nat (blockIdx_of pid + 1) \<and>
      length (vec_heap s') = Suc (length (vec_heap s)) \<and>
      currentInstanceIdx s' = 1 - currentInstanceIdx s \<and>
      (\<forall>b' i'. b' < int (len (cur_instance s)) \<longrightarrow>
         load_slot s' (currentInstanceIdx s') b' i' = load_slot s (currentInstanceIdx s) b' i') \<and>
      (\<forall>b' i'. int (len (cur_instance s)) \<le> b' \<and> b' \<le> blockIdx_of pid \<and> 0 \<le> i' \<and>
         i' < CHPL_PRIVATIZATION_BLOCK_SIZE \<longrightarrow>
         load_slot s' (currentInstanceIdx s') b' i' = Inr 0)"
proof -
  have ts: "to_size_t (blockIdx_of pid) = nat (blockIdx_of pid)"
    using r to_int_range [of "sint pid sdiv CHPL_PRIVATIZATION_BLOCK_SIZE"]
    by (intro to_size_t_id) (auto simp: blockIdx_of_def)
  have "len (cur_instance s) \<le> to_size_t (blockIdx_of pid)"
    unfolding ts using r by linarith
  from publish_iter_upgrade [OF ok this, of v] obtain s2 where
    s2: "same_store s s2" "registry_ok s2"
      "publish_iter v pid s =
             (case write_section (blockIdx_of pid) s2 of
                None \<Rightarrow> None
              | Some (Inl e) \<Rightarrow> Some (Inl e)
              | Some (Inr s3) \<Rightarrow> Some (Inr (False, s3)))"
    by blast
  have e: "cur_instance s2 = cur_instance s" "currentInstanceIdx s2 = currentInstanceIdx s"
    "vec_heap s2 = vec_heap s"
    using s2(1) by (simp_all add: same_store_def cur_instance_def)
  have l: "load_slot s2 q c j = load_slot s q c j" for q c j
    using same_store_load [OF s2(1)] by simp
  from s2(2) have "store_ok s2" "tls_ok s2" by (simp_all add: registry_ok_def)
  from write_section_grow [OF this, of "blockIdx_of pid"] r e l obtain s' where
    w: "write_section (blockIdx_of pid) s2 = Some (Inr s')" "store_ok s'"
      "tls_list s' = tls_list s2" "reader_tls s' = reader_tls s2"
      "len (cur_instance s') = nat (blockIdx_of pid + 1)"
      "length (vec_heap s') = Suc (length (vec_heap s))"
      "currentInstanceIdx s' = 1 - currentInstanceIdx s"
      "\<forall>b' i'. b' < int (len (cur_instance s)) \<longrightarrow>
         load_slot s' (currentInstanceIdx s') b' i' = load_slot s (currentInstanceIdx s) b' i'"
      "\<forall>b' i'. int (len (cur_instance s)) \<le> b' \<and> b' \<le> blockIdx_of pid \<and> 0 \<le> i' \<and>
         i' < CHPL_PRIVATIZATION_BLOCK_SIZE \<longrightarrow>
         load_slot s' (currentInstanceIdx s') b' i' = Inr 0"
    by auto
  have "registry_ok s'"
    using w(2) tls_ok_cong [OF w(3,4)] \<open>tls_ok s2\<close> by (simp add: registry_ok_def)
  moreover have "publish_iter v pid s = Some (Inr (False, s'))"
    by (simp add: s2(3) w(1))
  ultimately show ?thesis using w(5,6,7,8,9) by blast
qed


lemma publish_in:
  assumes ok: "registry_ok s"
    and r: "0 \<le> blockIdx_of pid" "blockIdx_of pid < int (len (cur_instance s))"
       "0 \<le> idx_of pid" "idx_of pid < CHPL_PRIVATIZATION_BLOCK_SIZE"
  shows "\<exists>s'. chpl_newPrivatizedClass v pid s = Some (Inr s') \<and>
           registry_ok s' \<and> cur_instance s' = cur_instance s \<and>
           currentInstanceIdx s' = currentInstanceIdx s \<and>
           vec_heap s' = vec_heap s \<and> chpl_priv_instances s' = chpl_priv_instances s \<and>
           load_slot s' (currentInstanceIdx s) (blockIdx_of pid) (idx_of pid) = Inr v \<and>
           (\<forall>b' i'. (b', i') \<noteq> slot_of pid \<longrightarrow>
              load_slot s' (currentInstanceIdx s) b' i' = load_slot s (currentInstanceIdx s) b' i')"
proof -
  from publish_iter_in [OF ok r, of v] obtain s' where
    s': "publish_iter v pid s = Some (Inr (True, s'))"
    and g: "registry_ok s' \<and> cur_instance s' = cur_instance s \<and>
           currentInstanceIdx s' = currentInstanceIdx s \<and>
           vec_heap s' = vec_heap s \<and> chpl_priv_instances s' = chpl_priv_instances s \<and>
           load_slot s' (currentInstanceIdx s) (blockIdx_of pid) (idx_of pid) = Inr v \<and>
           (\<forall>b' i'. (b', i') \<noteq> slot_of pid \<longrightarrow>
              load_slot s' (currentInstanceIdx s) b' i' = load_slot s (currentInstanceIdx s) b' i')"
    by blast
  have "chpl_newPrivatizedClass v pid s = Some (Inr s')"
    by (subst chpl_newPrivatizedClass.simps) (simp add: s')
  with g show ?thesis by blast
qed

lemma publish_grow:
  assumes ok: "registry_ok s"
    and r: "int (len (cur_instance s)) \<le> blockIdx_of pid" "blockIdx_of pid < INT_MAX"
       "0 \<le> idx_of pid" "idx_of pid < CHPL_PRIVATIZATION_BLOCK_SIZE"
  shows "\<exists>s'. chpl_newPrivatizedClass v pid s = Some (Inr s') \<and> registry_ok s' \<and>
      len (cur_instance s') = nat (blockIdx_of pid + 1) \<and>
      length (vec_heap s') = Suc (length (vec_heap s)) \<and>
      currentInstanceIdx s' = 1 - currentInstanceIdx s \<and>
      load_slot s' (currentInstanceIdx s') (blockIdx_of pid) (idx_of pid) = Inr v \<and>
      (\<forall>b' i'. (b', i') \<noteq> slot_of pid \<and> b' < int (len (cur_instance s)) \<longrightarrow>
         load_slot s' (currentInstanceIdx s') b' i' = load_slot s (currentInstanceIdx s) b' i') \<and>
      (\<forall>b' i'. (b', i') \<noteq> slot_of pid \<and> int (len (cur_instance s)) \<le> b' \<and>
         b' \<le> blockIdx_of pid \<and> 0 \<le> i' \<and> i' < CHPL_PRIVATIZATION_BLOCK_SIZE \<longrightarrow>
         load_slot s' (currentInstanceIdx s') b' i' = Inr 0)"
proof -
  from publish_iter_grow [OF ok r(1,2), of v] obtain s1 where
    s1: "publish_iter v pid s = Some (Inr (False, s1))" "registry_ok s1"
      "len (cur_instance s1) = nat (blockIdx_of pid + 1)"
      "length (vec_heap s1) = Suc (length (vec_heap s))"
      "currentInstanceIdx s1 = 1 - currentInstanceIdx s"
      "\<And>b' i'. b' < int (len (cur_instance s)) \<Longrightarrow>
         load_slot s1 (currentInstanceIdx s1) b' i' = load_slot s (currentInstanceIdx s) b' i'"
      "\<And>b' i'. int (len (cur_instance s)) \<le> b' \<and> b' \<le> blockIdx_of pid \<and> 0 \<le> i' \<and>
         i' < CHPL_PRIVATIZATION_BLOCK_SIZE \<Longrightarrow>
         load_slot s1 (currentInstanceIdx s1) b' i' = Inr 0"
    by blast
  have nn: "0 \<le> blockIdx_of pid" using r(1) by linarith
  have in1: "blockIdx_of pid < int (len (cur_instance s1))"
    using nn by (simp add: s1(3))
  from publish_in [OF s1(2) nn in1 r(3,4), of v] obtain s' where
    s': "chpl_newPrivatizedClass v pid s1 = Some (Inr s')"
      "registry_ok s'" "cur_instance s' = cur_instance s1"
      "currentInstanceIdx s' = currentInstanceIdx s1"
      "vec_heap s' = vec_heap s1"
      "load_slot s' (currentInstanceIdx s1) (blockIdx_of pid) (idx_of pid) = Inr v"
      "\<And>b' i'. (b', i') \<noteq> slot_of pid \<Longrightarrow>
              load_slot s' (currentInstanceIdx s1) b' i' = load_slot s1 (currentInstanceIdx s1) b' i'"
    by blast
  have "chpl_newPrivatizedClass v pid s = Some (Inr s')"
    by (subst chpl_newPrivatizedClass.simps) (simp add: s1(1) s'(1))
  moreover have "len (cur_instance s') = nat (blockIdx_of pid + 1)"
    "length (vec_heap s') = Suc (length (vec_heap s))"
    "currentInstanceIdx s' = 1 - currentInstanceIdx s"
    "load_slot s' (currentInstanceIdx s') (blockIdx_of pid) (idx_of pid) = Inr v"
    using s' s1 by simp_all
  moreover have "\<forall>b' i'. (b', i') \<noteq> slot_of pid \<and> b' < int (len (cur_instance s)) \<longrightarrow>
         load_slot s' (currentInstanceIdx s') b' i' = load_slot s (currentInstanceIdx s) b' i'"
    using s'(7) s1(6) by (simp add: s'(4))
  moreover have "\<forall>b' i'. (b', i') \<noteq> slot_of pid \<and> int (len (cur_instance s)) \<le> b' \<and>
         b' \<le> blockIdx_of pid \<and> 0 \<le> i' \<and> i' < CHPL_PRIVATIZATION_BLOCK_SIZE \<longrightarrow>
         load_slot s' (currentInstanceIdx s') b' i' = Inr 0"
    using s'(7) s1(7) by (simp add: s'(4))
  ultimately show ?thesis using s'(2) by blast
qed


lemma blockIdx_of_range: "- (2 ^ 31) \<le> blockIdx_of pid \<and> blockIdx_of pid \<le> INT_MAX"
  using to_int_range [of "sint pid sdiv CHPL_PRIVATIZATION_BLOCK_SIZE"]
  by (simp add: blockIdx_of_def INT_MAX_def)

lemma publish_post_neg:
  assumes "blockIdx_of pid < 0"
  shows "\<not> publish_post v pid s s'"
proof
  assume p: "publish_post v pid s s'"
  then have "store_ok s'" by (simp add: publish_post_def registry_ok_def)
  from load_slot_out [OF this, of "blockIdx_of pid" "idx_of pid"] assms p
  show False by (simp add: publish_post_def)
qed

lemma stuck_state_faults:
  assumes "stuck_state pid s"
  shows "\<exists>e. publish_iter v pid s = Some (Inl e)"
proof -
  from assms have t: "tls_ok s" and b: "blockIdx_of pid < 0"
    and l: "length (chpl_priv_instances s) = 2" "currentInstanceIdx s < 2"
      "to_size_t (blockIdx_of pid) < len (cur_instance s)"
    by (simp_all add: stuck_state_def)
  from acquireRead_ok [OF t] obtain s1 where
    s1: "acquireRead s = Inr (currentInstanceIdx s, s1)" "same_store s s1" "tls_reading s1"
    by blast
  have c1: "chpl_priv_instances s1 ! currentInstanceIdx s = cur_instance s"
    "length (chpl_priv_instances s1) = 2"
    using s1(2) l by (simp_all add: same_store_def cur_instance_def)
  from block_at_neg [OF b] obtain e where
    "block_at s1 (currentInstanceIdx s) (blockIdx_of pid) = Inl e" by blast
  then have "store_slot s1 (currentInstanceIdx s) (blockIdx_of pid) (idx_of pid) v = Inl e"
    by (simp add: store_slot_def)
  then have "publish_iter v pid s = Some (Inl e)"
    using l by (simp add: publish_iter_def Let_def s1(1) c1)
  then show ?thesis by blast
qed

lemma grow_instance_neg:
  assumes so: "store_ok s" and b: "b < 0"
    and g: "grow_instance b (currentInstanceIdx s) s = Inr s1"
  shows "tls_list s1 = tls_list s \<and> reader_tls s1 = reader_tls s \<and>
         length (chpl_priv_instances s1) = 2 \<and> currentInstanceIdx s1 < 2 \<and>
         len (cur_instance s1) = to_size_t (b + 1)"
proof -
  from so obtain vec :: "addr option list" where
    l2: "length (chpl_priv_instances s) = 2" and c2: "currentInstanceIdx s < 2"
    and lv: "length vec = len (cur_instance s)" "0 < length vec" "int (length vec) \<le> INT_MAX"
    unfolding store_ok_alt by blast
  define L where "L = len (cur_instance s)"
  have ti: "to_int (int L) = int L"
    using lv by (intro to_int_id) (auto simp: L_def INT_MAX_def)
  have old: "chpl_priv_instances s ! currentInstanceIdx s = cur_instance s"
    by (simp add: cur_instance_def)
  have nf: "fill_blocks nb (int L) b t = Inr t" for nb t
    using b by (subst fill_blocks.simps) simp
  define s0 where "s0 = s\<lparr>vec_heap := vec_heap s @ [Some (replicate (to_size_t (b + 1)) None)]\<rparr>"
  from g obtain s2 where
    cp: "copy_blocks (length (vec_heap s)) (blocks (cur_instance s)) L s0 = Inr s2"
    and s1: "s1 = s2\<lparr> chpl_priv_instances := (chpl_priv_instances s2)
                  [(if currentInstanceIdx s = 0 then 1 else 0) :=
                     \<lparr>blocks = Some (length (vec_heap s)), len = to_size_t (b + 1)\<rparr>],
                currentInstanceIdx := (if currentInstanceIdx s = 0 then 1 else 0) \<rparr>"
    unfolding grow_instance_def Let_def alloc_vec_def old getCurrentInstanceIdx_def
    by (auto simp: L_def [symmetric] ti nf s0_def split: sum.splits if_splits)
  from copy_blocks_frame [OF cp] have fr: "tls_list s2 = tls_list s" "reader_tls s2 = reader_tls s"
    "chpl_priv_instances s2 = chpl_priv_instances s"
    by (auto simp: s0_def dest: arg_cong [where f = tls_list] arg_cong [where f = reader_tls]
        arg_cong [where f = chpl_priv_instances])
  show ?thesis
    using l2 c2 by (auto simp: s1 fr cur_instance_def)
qed


lemma to_size_t_neg: "- (2 ^ 31) \<le> x \<Longrightarrow> x < 0 \<Longrightarrow> to_size_t x = nat (2 ^ 64 + x)"
proof -
  assume a: "- (2 ^ 31) \<le> x" "x < 0"
  have "x mod 2 ^ 64 = (x + 2 ^ 64) mod 2 ^ 64" by simp
  also have "\<dots> = x + 2 ^ 64" using a by (intro mod_pos_pos_trivial) auto
  finally show ?thesis by (simp add: to_size_t_def add.commute)
qed

lemma write_section_neg:
  assumes so: "store_ok s" and t: "tls_ok s" and b: "b < 0" "- (2 ^ 31) \<le> b"
    and w: "write_section b s = Some (Inr s')"
  shows "s' = s \<or> (tls_ok s' \<and> length (chpl_priv_instances s') = 2 \<and>
           currentInstanceIdx s' < 2 \<and> to_size_t b < len (cur_instance s'))"
proof -
  from so obtain vec :: "addr option list" where
    l2: "length (chpl_priv_instances s) = 2" and c2: "currentInstanceIdx s < 2"
    and lv: "length vec = len (cur_instance s)" "0 < length vec" "int (length vec) \<le> INT_MAX"
    unfolding store_ok_alt by blast
  define d where "d = to_int (int (to_size_t (b + 1)) - int (len (cur_instance s)))"
  have old: "chpl_priv_instances s ! currentInstanceIdx s = cur_instance s"
    by (simp add: cur_instance_def)
  have nm: "b \<noteq> INT_MAX" using b by (simp add: INT_MAX_def)
  show ?thesis
  proof (cases "d \<le> 0")
    case True
    with w l2 c2 nm show ?thesis
      by (simp add: write_section_def Let_def getCurrentInstanceIdx_def old d_def)
  next
    case False
    have b1: "b \<noteq> - 1"
    proof
      assume "b = - 1"
      then have "d = to_int (- int (len (cur_instance s)))"
        by (simp add: d_def to_size_t_def)
      also have "\<dots> = - int (len (cur_instance s))"
        using lv by (intro to_int_id) (auto simp: INT_MAX_def)
      finally show False using False by simp
    qed
    from w False l2 c2 nm obtain s1 where
      g: "grow_instance b (currentInstanceIdx s) s = Inr s1"
      and f: "free_vec (blocks (chpl_priv_instances s1 ! currentInstanceIdx s)) s1 = Inr s'"
      by (auto simp: write_section_def Let_def getCurrentInstanceIdx_def old d_def
          split: sum.splits option.splits)
    from grow_instance_neg [OF so b(1) g] have g1:
      "tls_list s1 = tls_list s" "reader_tls s1 = reader_tls s"
      "length (chpl_priv_instances s1) = 2" "currentInstanceIdx s1 < 2"
      "len (cur_instance s1) = to_size_t (b + 1)"
      by simp_all
    from free_vec_frame [OF f] have fr: "tls_list s' = tls_list s1" "reader_tls s' = reader_tls s1"
      "chpl_priv_instances s' = chpl_priv_instances s1" "currentInstanceIdx s' = currentInstanceIdx s1"
      by (auto dest: arg_cong [where f = tls_list] arg_cong [where f = reader_tls]
        arg_cong [where f = chpl_priv_instances] arg_cong [where f = currentInstanceIdx])
    have "tls_ok s'" using tls_ok_cong [of s' s] fr g1 t by simp
    moreover have "to_size_t b < to_size_t (b + 1)"
      using b b1 by (simp add: to_size_t_neg)
    ultimately show ?thesis using fr g1 by (simp add: cur_instance_def)
  qed
qed


lemma publish_step:
  assumes IH: "\<And>v pid s y. f v pid s = Some y \<Longrightarrow>
        (registry_ok s \<longrightarrow> (\<forall>s'. y = Inr s' \<longrightarrow> publish_post v pid s s')) \<and>
        (stuck_state pid s \<longrightarrow> (\<exists>e. y = Inl e))"
    and body: "(case publish_iter v pid s of
        None \<Rightarrow> None
      | Some (Inl e) \<Rightarrow> Some (Inl e)
      | Some (Inr (returned, s1)) \<Rightarrow>
          if returned then Some (Inr s1) else f v pid s1) = Some y"
  shows "(registry_ok s \<longrightarrow> (\<forall>s'. y = Inr s' \<longrightarrow> publish_post v pid s s')) \<and>
        (stuck_state pid s \<longrightarrow> (\<exists>e. y = Inl e))"
proof (intro conjI impI allI)
  assume "stuck_state pid s"
  from stuck_state_faults [OF this, of v] body show "\<exists>e. y = Inl e" by auto
next
  fix s' assume ok: "registry_ok s" and y: "y = Inr s'"
  then have so: "store_ok s" by (simp add: registry_ok_def)
  let ?b = "blockIdx_of pid"
  let ?L = "len (cur_instance s)"
  consider (neg) "?b < 0" | (inr) "0 \<le> ?b" "?b < int ?L"
    | (grow) "int ?L \<le> ?b" "?b < INT_MAX" | (top) "int ?L \<le> ?b" "?b = INT_MAX"
    using blockIdx_of_range [of pid] by linarith
  then show "publish_post v pid s s'"
  proof cases
    case inr
    show ?thesis
    proof (cases "0 \<le> idx_of pid \<and> idx_of pid < CHPL_PRIVATIZATION_BLOCK_SIZE")
      case True
      from publish_iter_in [OF ok inr, of v] True obtain t where
        t: "publish_iter v pid s = Some (Inr (True, t))"
        and g: "registry_ok t" "cur_instance t = cur_instance s"
           "currentInstanceIdx t = currentInstanceIdx s"
           "vec_heap t = vec_heap s" "chpl_priv_instances t = chpl_priv_instances s"
           "load_slot t (currentInstanceIdx s) (blockIdx_of pid) (idx_of pid) = Inr v"
           "\<And>b' i'. (b', i') \<noteq> slot_of pid \<Longrightarrow>
              load_slot t (currentInstanceIdx s) b' i' = load_slot s (currentInstanceIdx s) b' i'"
        by auto
      from body t y have "t = s'" by simp
      with g inr show ?thesis by (auto simp: publish_post_def)
    next
      case False
      from publish_iter_in_bad [OF ok inr False, of v] body y show ?thesis by auto
    qed
  next
    case grow
    from publish_iter_grow [OF ok grow, of v] obtain t where
      t: "publish_iter v pid s = Some (Inr (False, t))" and okt: "registry_ok t"
      and g: "len (cur_instance t) = nat (blockIdx_of pid + 1)"
        "\<And>b' i'. b' < int (len (cur_instance s)) \<Longrightarrow>
           load_slot t (currentInstanceIdx t) b' i' = load_slot s (currentInstanceIdx s) b' i'"
        "\<And>b' i'. int (len (cur_instance s)) \<le> b' \<and> b' \<le> blockIdx_of pid \<and> 0 \<le> i' \<and>
           i' < CHPL_PRIVATIZATION_BLOCK_SIZE \<Longrightarrow>
           load_slot t (currentInstanceIdx t) b' i' = Inr 0"
      by blast
    from body t y have "f v pid t = Some (Inr s')" by simp
    from IH [OF this] okt have p: "publish_post v pid t s'" by simp
    have lt: "len (cur_instance s') = nat (?b + 1)"
      using p g(1) by (simp add: publish_post_def)
    have m: "max ?L (nat (?b + 1)) = nat (?b + 1)" using grow by linarith
    have old: "load_slot s' (currentInstanceIdx s') b' i' = load_slot s (currentInstanceIdx s) b' i'"
      if "(b', i') \<noteq> slot_of pid \<and> b' < int ?L" for b' i'
    proof -
      from that grow have "b' < int (len (cur_instance t))" by (simp add: g(1))
      with p that have "load_slot s' (currentInstanceIdx s') b' i' = load_slot t (currentInstanceIdx t) b' i'"
        by (simp add: publish_post_def)
      with g(2) that show ?thesis by simp
    qed
    have new: "load_slot s' (currentInstanceIdx s') b' i' = Inr 0"
      if "(b', i') \<noteq> slot_of pid \<and> int ?L \<le> b' \<and> b' < int (len (cur_instance s')) \<and>
          0 \<le> i' \<and> i' < CHPL_PRIVATIZATION_BLOCK_SIZE" for b' i'
    proof -
      from that lt grow have r: "b' \<le> ?b" "b' < int (len (cur_instance t))" by (simp_all add: g(1))
      with p that have "load_slot s' (currentInstanceIdx s') b' i' = load_slot t (currentInstanceIdx t) b' i'"
        by (simp add: publish_post_def)
      with g(3) [of b' i'] that r show ?thesis by simp
    qed
    have ne: "len (cur_instance s') \<noteq> ?L" using lt grow by linarith
    from p lt m old new ne show ?thesis
      by (simp add: publish_post_def)
  next
    case top
    have "len (cur_instance s) \<le> to_size_t ?b"
      using top by (simp add: to_size_t_id INT_MAX_def)
    from publish_iter_upgrade [OF ok this, of v] obtain s2 where
      s2: "registry_ok s2"
        "publish_iter v pid s =
             (case write_section (blockIdx_of pid) s2 of
                None \<Rightarrow> None
              | Some (Inl e) \<Rightarrow> Some (Inl e)
              | Some (Inr s3) \<Rightarrow> Some (Inr (False, s3)))"
      by blast
    from s2(1) have "length (chpl_priv_instances s2) = 2" "currentInstanceIdx s2 < 2"
      by (simp_all add: registry_ok_def store_ok_def)
    then have "write_section ?b s2 = Some (Inl SignedOverflow)"
      using top by (simp add: write_section_def Let_def getCurrentInstanceIdx_def)
    with s2(2) body y show ?thesis by simp
  next
    case neg
    from so obtain vec :: "addr option list" where
      lv: "length vec = ?L" "int (length vec) \<le> INT_MAX"
      unfolding store_ok_alt by blast
    have "len (cur_instance s) \<le> to_size_t ?b"
      using neg blockIdx_of_range [of pid] lv by (simp add: to_size_t_neg INT_MAX_def)
    from publish_iter_upgrade [OF ok this, of v] obtain s2 where
      s2: "registry_ok s2"
        "publish_iter v pid s =
             (case write_section (blockIdx_of pid) s2 of
                None \<Rightarrow> None
              | Some (Inl e) \<Rightarrow> Some (Inl e)
              | Some (Inr s3) \<Rightarrow> Some (Inr (False, s3)))"
      by blast
    from body s2(2) y obtain t where
      t: "write_section ?b s2 = Some (Inr t)" "f v pid t = Some (Inr s')"
      by (auto split: option.splits sum.splits)
    from s2(1) have so2: "store_ok s2" "tls_ok s2" by (simp_all add: registry_ok_def)
    from write_section_neg [OF so2 neg _ t(1)] blockIdx_of_range [of pid]
    have "t = s2 \<or> stuck_state pid t"
      using neg by (auto simp: stuck_state_def)
    then show ?thesis
    proof
      assume "t = s2"
      with IH [OF t(2)] s2(1) have "publish_post v pid s2 s'" by simp
      with publish_post_neg [OF neg] show ?thesis by simp
    next
      assume "stuck_state pid t"
      with IH [OF t(2)] show ?thesis by simp
    qed
  qed
qed

lemma publish_sound_aux:
  assumes "chpl_newPrivatizedClass v pid s = Some y"
  shows "(registry_ok s \<longrightarrow> (\<forall>s'. y = Inr s' \<longrightarrow> publish_post v pid s s')) \<and>
        (stuck_state pid s \<longrightarrow> (\<exists>e. y = Inl e))"
  by (rule chpl_newPrivatizedClass.raw_induct
        [where P = "\<lambda>v pid s y. (registry_ok s \<longrightarrow> (\<forall>s'. y = Inr s' \<longrightarrow> publish_post v pid s s')) \<and>
        (stuck_state pid s \<longrightarrow> (\<exists>e. y = Inl e))", OF _ assms])
     (rule publish_step)

lemma publish_sound:
  "chpl_newPrivatizedClass v pid s = Some (Inr s') \<Longrightarrow> registry_ok s \<Longrightarrow> publish_post v pid s s'"
  using publish_sound_aux [of v pid s "Inr s'"] by simp

subsection \<open>Sequences of operations from the initial state\<close>

lemma initial_eq:
  "initial = \<lparr> block_heap = [zero_block], vec_heap = [Some [Some 0]],
     chpl_priv_instances = [\<lparr>blocks = Some 0, len = 1\<rparr>, \<lparr>blocks = None, len = 0\<rparr>],
     currentInstanceIdx = 0, tls_list = [], reader_tls = None \<rparr>"
  by (simp add: initial_def chpl_privatization_init_def static_init_def alloc_vec_def
      chpl_priv_block_create_def)

lemma initial_ok: "registry_ok initial"
  by (simp add: initial_eq registry_ok_def store_ok_def tls_ok_def cur_vec_def cur_instance_def
      INT_MAX_def length_zero_block)

lemma clear_sound:
  assumes ok: "registry_ok s" and c: "chpl_clearPrivatizedClass pid s = Inr s'"
  shows "registry_ok s' \<and> cur_instance s' = cur_instance s \<and>
           currentInstanceIdx s' = currentInstanceIdx s \<and>
           vec_heap s' = vec_heap s \<and> chpl_priv_instances s' = chpl_priv_instances s \<and>
           load_slot s' (currentInstanceIdx s) (blockIdx_of pid) (idx_of pid) = Inr 0 \<and>
           (\<forall>b' i'. (b', i') \<noteq> slot_of pid \<longrightarrow>
              load_slot s' (currentInstanceIdx s) b' i' = load_slot s (currentInstanceIdx s) b' i')"
proof (cases "0 \<le> blockIdx_of pid \<and> blockIdx_of pid < int (len (cur_instance s)) \<and>
       0 \<le> idx_of pid \<and> idx_of pid < CHPL_PRIVATIZATION_BLOCK_SIZE")
  case True
  then have r: "0 \<le> blockIdx_of pid" "blockIdx_of pid < int (len (cur_instance s))"
       "0 \<le> idx_of pid" "idx_of pid < CHPL_PRIVATIZATION_BLOCK_SIZE" by simp_all
  from clear_in [OF ok r] c show ?thesis by auto
next
  case False
  from clear_out [OF ok False] c show ?thesis by auto
qed

text \<open>One operation, then a list of operations, from a well-formed state.\<close>

lemma exec_op_sound:
  assumes ok: "registry_ok s" and x: "exec_op x s = Some (Inr s')"
  shows "registry_ok s' \<and> len (cur_instance s) \<le> len (cur_instance s') \<and>
     (len (cur_instance s') = len (cur_instance s) \<longrightarrow>
        vec_heap s' = vec_heap s \<and> chpl_priv_instances s' = chpl_priv_instances s \<and>
        currentInstanceIdx s' = currentInstanceIdx s)"
proof (cases x)
  case (Publish v pid)
  with x have "chpl_newPrivatizedClass v pid s = Some (Inr s')" by simp
  from publish_sound [OF this ok] show ?thesis by (simp add: publish_post_def)
next
  case (Get pid)
  with x obtain v where "chpl_getPrivatizedClass pid s = Inr (v, s')"
    by (cases "chpl_getPrivatizedClass pid s") auto
  from get_sound [OF ok this] show ?thesis by (simp add: same_store_def cur_instance_def)
next
  case (Clear pid)
  with x have "chpl_clearPrivatizedClass pid s = Inr s'" by simp
  from clear_sound [OF ok this] show ?thesis by simp
next
  case Capacity
  from capacity_ok [OF ok] obtain t where
    t: "chpl_numPrivatizedClasses s =
            Inr (int (len (cur_instance s)) * CHPL_PRIVATIZATION_BLOCK_SIZE, t)"
      "same_store s t" "registry_ok t"
    by blast
  from x Capacity t(1) have "s' = t" by simp
  with t(2,3) show ?thesis by (simp add: same_store_def cur_instance_def)
qed

lemma run_sound:
  assumes "registry_ok s" "run xs s = Some (Inr s')"
  shows "registry_ok s' \<and> len (cur_instance s) \<le> len (cur_instance s') \<and>
     (len (cur_instance s') = len (cur_instance s) \<longrightarrow>
        vec_heap s' = vec_heap s \<and> chpl_priv_instances s' = chpl_priv_instances s \<and>
        currentInstanceIdx s' = currentInstanceIdx s)"
  using assms
proof (induction xs arbitrary: s)
  case Nil
  then show ?case by simp
next
  case (Cons x xs)
  from Cons.prems(2) obtain s1 where
    s1: "exec_op x s = Some (Inr s1)" "run xs s1 = Some (Inr s')"
    by (auto split: option.splits sum.splits)
  from exec_op_sound [OF Cons.prems(1) s1(1)] have a:
    "registry_ok s1" "len (cur_instance s) \<le> len (cur_instance s1)"
    "len (cur_instance s1) = len (cur_instance s) \<Longrightarrow>
        vec_heap s1 = vec_heap s \<and> chpl_priv_instances s1 = chpl_priv_instances s \<and>
        currentInstanceIdx s1 = currentInstanceIdx s"
    by simp_all
  from Cons.IH [OF a(1) s1(2)] have b:
    "registry_ok s'" "len (cur_instance s1) \<le> len (cur_instance s')"
    "len (cur_instance s') = len (cur_instance s1) \<Longrightarrow>
        vec_heap s' = vec_heap s1 \<and> chpl_priv_instances s' = chpl_priv_instances s1 \<and>
        currentInstanceIdx s' = currentInstanceIdx s1"
    by simp_all
  show ?case
  proof (intro conjI impI)
    show "registry_ok s'" by (rule b(1))
    show "len (cur_instance s) \<le> len (cur_instance s')" using a(2) b(2) by simp
  next
    assume e: "len (cur_instance s') = len (cur_instance s)"
    with a(2) b(2) have "len (cur_instance s1) = len (cur_instance s)"
      "len (cur_instance s') = len (cur_instance s1)" by simp_all
    with a(3) b(3) show "vec_heap s' = vec_heap s" "chpl_priv_instances s' = chpl_priv_instances s"
      "currentInstanceIdx s' = currentInstanceIdx s" by simp_all
  qed
qed

lemma run_append:
  "run (xs @ ys) s = (case run xs s of None \<Rightarrow> None | Some (Inl e) \<Rightarrow> Some (Inl e)
                      | Some (Inr s1) \<Rightarrow> run ys s1)"
  by (induction xs arbitrary: s) (auto split: option.splits sum.splits)

lemma valid_pid:
  assumes "0 \<le> sint pid" "sint pid div CHPL_PRIVATIZATION_BLOCK_SIZE < INT_MAX"
  shows "blockIdx_of pid = sint pid div CHPL_PRIVATIZATION_BLOCK_SIZE"
    "idx_of pid = sint pid mod CHPL_PRIVATIZATION_BLOCK_SIZE"
    "0 \<le> blockIdx_of pid" "blockIdx_of pid < INT_MAX"
    "0 \<le> idx_of pid" "idx_of pid < CHPL_PRIVATIZATION_BLOCK_SIZE"
proof -
  have "sint pid < 2 ^ 41"
    using assms(2) by (simp add: CHPL_PRIVATIZATION_BLOCK_SIZE_def INT_MAX_def)
  from blockIdx_of_small [OF assms(1) this]
  show b: "blockIdx_of pid = sint pid div CHPL_PRIVATIZATION_BLOCK_SIZE" .
  show i: "idx_of pid = sint pid mod CHPL_PRIVATIZATION_BLOCK_SIZE"
    by (rule idx_of_nonneg [OF assms(1)])
  show "0 \<le> blockIdx_of pid" "blockIdx_of pid < INT_MAX"
    using assms by (simp_all add: b CHPL_PRIVATIZATION_BLOCK_SIZE_def)
  show "0 \<le> idx_of pid" "idx_of pid < CHPL_PRIVATIZATION_BLOCK_SIZE"
    by (simp_all add: i CHPL_PRIVATIZATION_BLOCK_SIZE_def)
qed

lemma publish_valid:
  assumes ok: "registry_ok s"
    and r: "0 \<le> blockIdx_of pid" "blockIdx_of pid < INT_MAX"
       "0 \<le> idx_of pid" "idx_of pid < CHPL_PRIVATIZATION_BLOCK_SIZE"
  shows "\<exists>s'. chpl_newPrivatizedClass v pid s = Some (Inr s') \<and> publish_post v pid s s'"
proof -
  have "\<exists>s'. chpl_newPrivatizedClass v pid s = Some (Inr s')"
  proof (cases "blockIdx_of pid < int (len (cur_instance s))")
    case True
    from publish_in [OF ok r(1) True r(3,4), of v] show ?thesis by blast
  next
    case False
    then have "int (len (cur_instance s)) \<le> blockIdx_of pid" by simp
    from publish_grow [OF ok this r(2,3,4), of v] show ?thesis by blast
  qed
  then obtain s' where "chpl_newPrivatizedClass v pid s = Some (Inr s')" by blast
  with publish_sound [OF this ok] show ?thesis by blast
qed

lemma slot_of_inj:
  assumes "0 \<le> sint a" "sint a < 2 ^ 41" "0 \<le> sint b" "sint b < 2 ^ 41" "a \<noteq> b"
  shows "slot_of a \<noteq> slot_of b"
proof
  assume e: "slot_of a = slot_of b"
  have "sint a = 1024 * (sint a div 1024) + sint a mod 1024" by simp
  also have "\<dots> = 1024 * (sint b div 1024) + sint b mod 1024"
    using e assms by (simp add: slot_of_def blockIdx_of_small idx_of_nonneg CHPL_PRIVATIZATION_BLOCK_SIZE_def)
  also have "\<dots> = sint b" by simp
  finally have "a = b" by (rule signed_word_eqI)
  with assms(5) show False by simp
qed

lemma load_slot_idx_out:
  assumes "store_ok s" "i < 0 \<or> CHPL_PRIVATIZATION_BLOCK_SIZE \<le> i"
  shows "\<exists>e. load_slot s (currentInstanceIdx s) b i = Inl e"
proof (cases "b < 0 \<or> int (len (cur_instance s)) \<le> b")
  case True
  from load_slot_out [OF assms(1) True] show ?thesis by blast
next
  case False
  then have r: "0 \<le> b" "b < int (len (cur_instance s))" by auto
  from block_at_in [OF assms(1) r] assms(2) show ?thesis
    by (auto simp: load_slot_def)
qed

text \<open>A slot that no publish addresses stays null (or out of range).\<close>

lemma exec_op_null:
  assumes ok: "registry_ok s" and x: "exec_op x s = Some (Inr s')"
    and np: "\<And>v q. x = Publish v q \<Longrightarrow> slot_of q \<noteq> (b, i)"
    and z: "\<And>v. load_slot s (currentInstanceIdx s) b i = Inr v \<Longrightarrow> v = 0"
    and l: "load_slot s' (currentInstanceIdx s') b i = Inr v"
  shows "v = 0"
proof (cases x)
  case (Publish w q)
  with x have "chpl_newPrivatizedClass w q s = Some (Inr s')" by simp
  from publish_sound [OF this ok] have p: "publish_post w q s s'" .
  then have so': "store_ok s'" by (simp add: publish_post_def registry_ok_def)
  from np [OF Publish] have ne: "(b, i) \<noteq> slot_of q" by simp
  show ?thesis
  proof (cases "b < int (len (cur_instance s))")
    case True
    with p ne l have "load_slot s (currentInstanceIdx s) b i = Inr v"
      by (simp add: publish_post_def)
    then show ?thesis by (rule z)
  next
    case False
    have in': "b < int (len (cur_instance s'))"
      using load_slot_out [OF so', of b i] l by (cases "b < int (len (cur_instance s'))") auto
    have ii: "0 \<le> i \<and> i < CHPL_PRIVATIZATION_BLOCK_SIZE"
      using load_slot_idx_out [OF so', of i b] l by (cases "0 \<le> i \<and> i < CHPL_PRIVATIZATION_BLOCK_SIZE") auto
    from p ne False in' ii have "load_slot s' (currentInstanceIdx s') b i = Inr 0"
      by (simp add: publish_post_def)
    with l show ?thesis by simp
  qed
next
  case (Get pid)
  with x obtain w where "chpl_getPrivatizedClass pid s = Inr (w, s')"
    by (cases "chpl_getPrivatizedClass pid s") auto
  from get_sound [OF ok this] have ss: "same_store s s'" by simp
  from same_store_load [OF ss, of "currentInstanceIdx s" b i] same_store_cur [OF ss] l
  show ?thesis by (intro z) simp
next
  case (Clear pid)
  with x have "chpl_clearPrivatizedClass pid s = Inr s'" by simp
  from clear_sound [OF ok this] have c:
    "currentInstanceIdx s' = currentInstanceIdx s"
    "load_slot s' (currentInstanceIdx s) (blockIdx_of pid) (idx_of pid) = Inr 0"
    "\<And>b' i'. (b', i') \<noteq> slot_of pid \<Longrightarrow>
        load_slot s' (currentInstanceIdx s) b' i' = load_slot s (currentInstanceIdx s) b' i'"
    by simp_all
  show ?thesis
  proof (cases "(b, i) = slot_of pid")
    case True
    with c(1,2) l show ?thesis by (simp add: slot_of_def)
  next
    case False
    from c(3) [OF False] c(1) l show ?thesis by (intro z) simp
  qed
next
  case Capacity
  from capacity_ok [OF ok] obtain t where
    t: "chpl_numPrivatizedClasses s =
            Inr (int (len (cur_instance s)) * CHPL_PRIVATIZATION_BLOCK_SIZE, t)"
      "same_store s t"
    by blast
  from x Capacity t(1) have "s' = t" by simp
  with t(2) have ss: "same_store s s'" by simp
  from same_store_load [OF ss, of "currentInstanceIdx s" b i] same_store_cur [OF ss] l
  show ?thesis by (intro z) simp
qed

lemma run_null:
  assumes "registry_ok s" "run xs s = Some (Inr s')"
    and "\<And>v q. Publish v q \<in> set xs \<Longrightarrow> slot_of q \<noteq> (b, i)"
    and "\<And>v. load_slot s (currentInstanceIdx s) b i = Inr v \<Longrightarrow> v = 0"
    and "load_slot s' (currentInstanceIdx s') b i = Inr v"
  shows "v = 0"
  using assms
proof (induction xs arbitrary: s)
  case Nil
  then show ?case by simp
next
  case (Cons x xs)
  from Cons.prems(2) obtain s1 where
    s1: "exec_op x s = Some (Inr s1)" "run xs s1 = Some (Inr s')"
    by (auto split: option.splits sum.splits)
  from exec_op_sound [OF Cons.prems(1) s1(1)] have ok1: "registry_ok s1" by simp
  have z1: "w = 0" if "load_slot s1 (currentInstanceIdx s1) b i = Inr w" for w
    using Cons.prems(1) s1(1) _ Cons.prems(4) that
  proof (rule exec_op_null)
    fix u q assume "x = Publish u q"
    then show "slot_of q \<noteq> (b, i)" using Cons.prems(3) [of u q] by simp
  qed
  show ?case
    using ok1 s1(2) _ z1 Cons.prems(5)
  proof (rule Cons.IH)
    fix u q assume "Publish u q \<in> set xs"
    then show "slot_of q \<noteq> (b, i)" using Cons.prems(3) [of u q] by simp
  qed
qed

lemma initial_null:
  assumes "load_slot initial (currentInstanceIdx initial) b i = Inr v"
  shows "v = 0"
  using assms
  by (auto simp: initial_eq load_slot_def block_at_def zero_block_def
      CHPL_PRIVATIZATION_BLOCK_SIZE_def split: if_splits sum.splits)

text \<open>A publish whose truncated block index is negative and for which the writer computes
  \<open>deltaBlocks \<le> 0\<close> goes round the loop for ever.\<close>

lemma publish_diverges_aux:
  assumes "chpl_newPrivatizedClass v pid s = Some y"
  shows "\<not> (registry_ok s \<and> blockIdx_of pid < 0 \<and>
            to_int (int (to_size_t (blockIdx_of pid + 1)) - int (len (cur_instance s))) \<le> 0)"
proof (rule chpl_newPrivatizedClass.raw_induct
        [where P = "\<lambda>v pid s y. \<not> (registry_ok s \<and> blockIdx_of pid < 0 \<and>
            to_int (int (to_size_t (blockIdx_of pid + 1)) - int (len (cur_instance s))) \<le> 0)",
         OF _ assms])
  fix f v pid s y
  assume IH: "\<And>v pid s y. f v pid s = Some y \<Longrightarrow> \<not> (registry_ok s \<and> blockIdx_of pid < 0 \<and>
            to_int (int (to_size_t (blockIdx_of pid + 1)) - int (len (cur_instance s))) \<le> 0)"
    and body: "(case publish_iter v pid s of
        None \<Rightarrow> None
      | Some (Inl e) \<Rightarrow> Some (Inl e)
      | Some (Inr (returned, s1)) \<Rightarrow>
          if returned then Some (Inr s1) else f v pid s1) = Some y"
  show "\<not> (registry_ok s \<and> blockIdx_of pid < 0 \<and>
            to_int (int (to_size_t (blockIdx_of pid + 1)) - int (len (cur_instance s))) \<le> 0)"
  proof
    assume a: "registry_ok s \<and> blockIdx_of pid < 0 \<and>
            to_int (int (to_size_t (blockIdx_of pid + 1)) - int (len (cur_instance s))) \<le> 0"
    then have ok: "registry_ok s" and neg: "blockIdx_of pid < 0" by simp_all
    from ok obtain vec :: "addr option list" where
      lv: "length vec = len (cur_instance s)" "int (length vec) \<le> INT_MAX"
      unfolding registry_ok_def store_ok_alt by blast
    have "len (cur_instance s) \<le> to_size_t (blockIdx_of pid)"
      using neg blockIdx_of_range [of pid] lv by (simp add: to_size_t_neg INT_MAX_def)
    from publish_iter_upgrade [OF ok this, of v] obtain s2 where
      s2: "same_store s s2" "registry_ok s2"
        "publish_iter v pid s =
             (case write_section (blockIdx_of pid) s2 of
                None \<Rightarrow> None
              | Some (Inl e) \<Rightarrow> Some (Inl e)
              | Some (Inr s3) \<Rightarrow> Some (Inr (False, s3)))"
      by blast
    have e: "cur_instance s2 = cur_instance s"
      using s2(1) by (simp add: same_store_def cur_instance_def)
    from s2(2) have l2: "length (chpl_priv_instances s2) = 2" "currentInstanceIdx s2 < 2"
      by (simp_all add: registry_ok_def store_ok_def)
    have nm: "blockIdx_of pid \<noteq> INT_MAX" using neg by (simp add: INT_MAX_def)
    have "write_section (blockIdx_of pid) s2 = Some (Inr s2)"
      using a l2 nm e
      by (simp add: write_section_def Let_def getCurrentInstanceIdx_def cur_instance_def)
    with s2(3) body have "f v pid s2 = Some y" by simp
    from IH [OF this] s2(2) a e show False by simp
  qed
qed

lemma publish_diverges:
  assumes "registry_ok s" "blockIdx_of pid < 0"
    "to_int (int (to_size_t (blockIdx_of pid + 1)) - int (len (cur_instance s))) \<le> 0"
  shows "chpl_newPrivatizedClass v pid s = None"
  using publish_diverges_aux [of v pid s] assms
  by (cases "chpl_newPrivatizedClass v pid s") auto

lemma blockIdx_2_41: "blockIdx_of (2 ^ 41) = - (2 ^ 31)"
  unfolding blockIdx_of_def CHPL_PRIVATIZATION_BLOCK_SIZE_def to_int_def
  by (simp add: signed_divide_int_def)

lemma publish_2_41_diverges: "chpl_newPrivatizedClass v (2 ^ 41) initial = None"
proof (rule publish_diverges [OF initial_ok])
  show "blockIdx_of (2 ^ 41) < 0" unfolding blockIdx_2_41 by simp
  have "len (cur_instance initial) = 1" by (simp add: initial_eq cur_instance_def)
  then show "to_int (int (to_size_t (blockIdx_of (2 ^ 41) + 1)) - int (len (cur_instance initial))) \<le> 0"
    unfolding blockIdx_2_41 by (simp add: to_size_t_def to_int_def)
qed

subsection \<open>Concrete runs from the initial state\<close>

lemma reach_ok: "run ops initial = Some (Inr s) \<Longrightarrow> registry_ok s"
  using run_sound [OF initial_ok] by blast

lemma observe_nil: "observe f [] = Some (f initial)"
  by (simp add: observe_def)

lemma observe_publish:
  "chpl_newPrivatizedClass v pid initial = Some (Inr s) \<Longrightarrow> observe f [Publish v pid] = Some (f s)"
  by (simp add: observe_def)

lemma observe_publish_None:
  "chpl_newPrivatizedClass v pid initial = None \<Longrightarrow> observe f [Publish v pid] = None"
  by (simp add: observe_def)

lemma initial_len: "len (cur_instance initial) = 1" "currentInstanceIdx initial = 0"
  by (simp_all add: initial_eq cur_instance_def)

lemma get_value_out:
  assumes "registry_ok s" "blockIdx_of pid < 0 \<or> int (len (cur_instance s)) \<le> blockIdx_of pid"
  shows "get_value pid s = Inl OutOfBounds"
  using assms load_slot_out [of s "blockIdx_of pid" "idx_of pid"]
  by (simp add: get_value_eq registry_ok_def)

lemma slot_small: "slot_of 0 = (0, 0)" "slot_of 1024 = (1, 0)" "slot_of 2048 = (2, 0)"
  "slot_of 1023 = (0, 1023)" "slot_of 5000 = (4, 904)" "slot_of 3 = (0, 3)"
  by (simp_all add: slot_of_def blockIdx_of_def idx_of_def CHPL_PRIVATIZATION_BLOCK_SIZE_def
      to_int_def signed_divide_int_def signed_modulo_int_def)

lemma slot_big: "slot_of (2 ^ 42) = (0, 0)" "slot_of (2 ^ 42 + 1024) = (1, 0)"
  by (simp_all add: slot_of_def blockIdx_of_def idx_of_def CHPL_PRIVATIZATION_BLOCK_SIZE_def
      to_int_def signed_divide_int_def signed_modulo_int_def)

lemma slot_ofD: "slot_of pid = (b, i) \<Longrightarrow> blockIdx_of pid = b \<and> idx_of pid = i"
  by (simp add: slot_of_def)

lemma capacity_eq:
  "registry_ok s \<Longrightarrow> capacity s = Inr (int (len (cur_instance s)) * CHPL_PRIVATIZATION_BLOCK_SIZE)"
  using capacity_ok [of s] by (auto simp: capacity_def)

lemma publish_grow_initial:
  assumes "slot_of pid = (b, i)" "1 \<le> b" "b < INT_MAX" "0 \<le> i" "i < CHPL_PRIVATIZATION_BLOCK_SIZE"
  shows "\<exists>s'. chpl_newPrivatizedClass v pid initial = Some (Inr s') \<and> registry_ok s' \<and>
      len (cur_instance s') = nat (b + 1) \<and>
      load_slot s' (currentInstanceIdx s') b i = Inr v \<and>
      (\<forall>b' i'. (b', i') \<noteq> (b, i) \<and> 0 \<le> b' \<and> b' \<le> b \<and> 0 \<le> i' \<and>
         i' < CHPL_PRIVATIZATION_BLOCK_SIZE \<longrightarrow> load_slot s' (currentInstanceIdx s') b' i' = Inr 0)"
proof -
  from slot_ofD [OF assms(1)] have e: "blockIdx_of pid = b" "idx_of pid = i" by simp_all
  have r: "int (len (cur_instance initial)) \<le> blockIdx_of pid" "blockIdx_of pid < INT_MAX"
       "0 \<le> idx_of pid" "idx_of pid < CHPL_PRIVATIZATION_BLOCK_SIZE"
    using assms by (simp_all add: e initial_len)
  from publish_grow [OF initial_ok r, of v] obtain s' where
    s': "chpl_newPrivatizedClass v pid initial = Some (Inr s')" "registry_ok s'"
      "len (cur_instance s') = nat (b + 1)"
      "load_slot s' (currentInstanceIdx s') b i = Inr v"
      "\<And>b' i'. (b', i') \<noteq> (b, i) \<and> b' < 1 \<Longrightarrow>
         load_slot s' (currentInstanceIdx s') b' i' = load_slot initial 0 b' i'"
      "\<And>b' i'. (b', i') \<noteq> (b, i) \<and> 1 \<le> b' \<and>
         b' \<le> b \<and> 0 \<le> i' \<and> i' < CHPL_PRIVATIZATION_BLOCK_SIZE \<Longrightarrow>
         load_slot s' (currentInstanceIdx s') b' i' = Inr 0"
    unfolding e assms(1) initial_len by auto
  have z: "load_slot initial 0 0 i' = Inr 0" if "0 \<le> i'" "i' < CHPL_PRIVATIZATION_BLOCK_SIZE" for i'
    using that by (simp add: initial_eq load_slot_def block_at_def zero_block_nth length_zero_block)
  have "load_slot s' (currentInstanceIdx s') b' i' = Inr 0"
    if "(b', i') \<noteq> (b, i) \<and> 0 \<le> b' \<and> b' \<le> b \<and> 0 \<le> i' \<and>
         i' < CHPL_PRIVATIZATION_BLOCK_SIZE" for b' i'
  proof (cases "b' < 1")
    case True
    with that have "b' = 0" by simp
    with s'(5) [of b' i'] that z [of i'] show ?thesis by simp
  next
    case False
    with s'(6) [of b' i'] that show ?thesis by simp
  qed
  with s'(1-4) show ?thesis by blast
qed

text \<open>A pid inside the capacity whose slot no publish addressed reads as null.\<close>

lemma never_published_null:
  assumes "run ops initial = Some (Inr s)"
    and "\<forall>v q. Publish v q \<in> set ops \<longrightarrow> slot_of q \<noteq> slot_of pid"
    and "0 \<le> sint pid" "sint pid div CHPL_PRIVATIZATION_BLOCK_SIZE < int (len (cur_instance s))"
  shows "get_value pid s = Inr 0"
proof -
  note ok = reach_ok [OF assms(1)]
  from ok obtain vec :: "addr option list" where
    lv: "length vec = len (cur_instance s)" "int (length vec) \<le> INT_MAX"
    unfolding registry_ok_def store_ok_alt by blast
  have bm: "sint pid div CHPL_PRIVATIZATION_BLOCK_SIZE < INT_MAX"
    using assms(4) lv by linarith
  note vp = valid_pid [OF assms(3) bm]
  have "store_ok s" using ok by (simp add: registry_ok_def)
  from load_slot_in [OF this vp(3) _ vp(5,6)] assms(4) obtain v where
    v: "load_slot s (currentInstanceIdx s) (blockIdx_of pid) (idx_of pid) = Inr v"
    unfolding vp(1) by blast
  have "v = 0"
    using initial_ok assms(1) _ _ v
  proof (rule run_null)
    fix u q assume "Publish u q \<in> set ops"
    with assms(2) show "slot_of q \<noteq> (blockIdx_of pid, idx_of pid)" by (simp add: slot_of_def)
  next
    fix w assume "load_slot initial (currentInstanceIdx initial) (blockIdx_of pid) (idx_of pid) = Inr w"
    then show "w = 0" by (rule initial_null)
  qed
  with v show ?thesis by (simp add: get_value_eq [OF ok])
qed

subsection \<open>The quiescence wait while readers run\<close>

lemma wait_reads_Some:
  "wait_reads n sts i t = Some t' \<Longrightarrow>
     t + length sts \<le> t' \<and> t' \<le> t + n \<and>
     (\<exists>us. length us = length sts \<and> sorted_wrt (<) us \<and>
        (\<forall>k<length sts. t \<le> us ! k \<and> us ! k < t' \<and> uint ((sts ! k) (us ! k)) \<noteq> int i))"
proof (induction n sts i t rule: wait_reads.induct)
  case (1 fuel instIdx t)
  then show ?case by simp
next
  case (2 st rest instIdx t)
  then show ?case by simp
next
  case (3 fuel st rest instIdx t)
  show ?case
  proof (cases "uint (st t) = int instIdx")
    case True
    with 3 have "wait_reads fuel (st # rest) instIdx (Suc t) = Some t'" by simp
    from 3(1) [OF True this] obtain us where
      b: "Suc t + length (st # rest) \<le> t'" "t' \<le> Suc t + fuel"
      and us: "length us = length (st # rest)" "sorted_wrt (<) us"
        "\<forall>k<length (st # rest). Suc t \<le> us ! k \<and> us ! k < t' \<and>
           uint (((st # rest) ! k) (us ! k)) \<noteq> int instIdx"
      by blast
    have "\<forall>k<length (st # rest). t \<le> us ! k \<and> us ! k < t' \<and>
           uint (((st # rest) ! k) (us ! k)) \<noteq> int instIdx"
      using us(3) by (meson Suc_leD)
    with b us(1,2) show ?thesis by (intro conjI exI [of _ us]) simp_all
  next
    case False
    with 3 have "wait_reads fuel rest instIdx (Suc t) = Some t'" by simp
    from 3(2) [OF False this] obtain us where
      b: "Suc t + length rest \<le> t'" "t' \<le> Suc t + fuel"
      and us: "length us = length rest" "sorted_wrt (<) us"
        "\<forall>k<length rest. Suc t \<le> us ! k \<and> us ! k < t' \<and>
           uint ((rest ! k) (us ! k)) \<noteq> int instIdx"
      by blast
    have lt: "t < t'" using b by simp
    have "t < u" if "u \<in> set us" for u
    proof -
      from that obtain k where "k < length us" "us ! k = u" by (auto simp: in_set_conv_nth)
      with us(1,3) have "Suc t \<le> u" by auto
      then show ?thesis by simp
    qed
    then have s: "sorted_wrt (<) (t # us)"
      using us(2) by simp
    have "\<forall>k<length (st # rest). t \<le> (t # us) ! k \<and> (t # us) ! k < t' \<and>
           uint (((st # rest) ! k) ((t # us) ! k)) \<noteq> int instIdx"
    proof (intro allI impI)
      fix k assume k: "k < length (st # rest)"
      show "t \<le> (t # us) ! k \<and> (t # us) ! k < t' \<and>
           uint (((st # rest) ! k) ((t # us) ! k)) \<noteq> int instIdx"
      proof (cases k)
        case 0
        then show ?thesis using False lt by simp
      next
        case (Suc j)
        with k have "j < length rest" by simp
        with us(3) have "Suc t \<le> us ! j \<and> us ! j < t' \<and>
           uint ((rest ! j) (us ! j)) \<noteq> int instIdx" by blast
        with Suc show ?thesis by simp
      qed
    qed
    with b us(1) s show ?thesis by (intro conjI exI [of _ "t # us"]) simp_all
  qed
qed

lemma wait_reads_frozen:
  "wait_reads n (map (\<lambda>c t. c) cs) i t =
     (if length cs \<le> n \<and> list_all (\<lambda>c. uint c \<noteq> int i) cs then Some (t + length cs) else None)"
proof (induction n arbitrary: cs t)
  case 0
  then show ?case by (cases cs) simp_all
next
  case (Suc n)
  show ?case
  proof (cases cs)
    case Nil
    then show ?thesis by simp
  next
    case (Cons c cs')
    show ?thesis
    proof (cases "uint c = int i")
      case True
      have "wait_reads (Suc n) (map (\<lambda>c t. c) cs) i t = wait_reads n (map (\<lambda>c t. c) cs) i (Suc t)"
        using True Cons by simp
      also have "\<dots> = None" unfolding Suc.IH using True Cons by simp
      finally show ?thesis using True Cons by simp
    next
      case False
      have "wait_reads (Suc n) (map (\<lambda>c t. c) cs) i t = wait_reads n (map (\<lambda>c t. c) cs') i (Suc t)"
        using False Cons by simp
      then show ?thesis using False Cons by (simp add: Suc.IH)
    qed
  qed
qed

lemma frozen_poll_map:
  "map (frozen_poll s) [0..<length (tls_list s)] = map (\<lambda>c t. c) (map status (tls_list s))"
  by (rule nth_equalityI) (auto simp: frozen_poll_def)

lemma wait_reads_frozen_poll:
  "wait_reads n (map (frozen_poll s) [0..<length (tls_list s)]) i 0 \<noteq> None \<longleftrightarrow>
     length (tls_list s) \<le> n \<and> quiescent s i"
  unfolding frozen_poll_map wait_reads_frozen by (simp add: quiescent_def list_all_iff)

lemma wait_reads_const:
  assumes "\<forall>k t. poll k t = poll k 0"
  shows "wait_reads n (map poll [0..<m]) i 0 \<noteq> None \<longleftrightarrow>
     m \<le> n \<and> (\<forall>k<m. uint (poll k 0) \<noteq> int i)"
proof -
  have "map poll [0..<m] = map (\<lambda>c t. c) (map (\<lambda>k. poll k 0) [0..<m])"
    using assms by (intro nth_equalityI) auto
  then have "wait_reads n (map poll [0..<m]) i 0 =
      wait_reads n (map (\<lambda>c t. c) (map (\<lambda>k. poll k 0) [0..<m])) i 0" by (rule arg_cong)
  also have "\<dots> \<noteq> None \<longleftrightarrow> m \<le> n \<and> (\<forall>k<m. uint (poll k 0) \<noteq> int i)"
    unfolding wait_reads_frozen by (auto simp: list_all_iff)
  finally show ?thesis .
qed

lemma write_section_observed_grow:
  assumes ok: "store_ok s"
    and b: "int (len (cur_instance s)) \<le> blockIdx" "blockIdx < INT_MAX"
  shows "\<exists>p s4 s5. blocks (cur_instance s) = Some p \<and> p < length (vec_heap s) \<and>
      vec_heap s ! p \<noteq> None \<and>
      write_section_observed fuel poll blockIdx s =
        (case wait_reads fuel (map poll [0..<length (tls_list s)]) (currentInstanceIdx s) 0 of
           None \<Rightarrow> Inr (Waiting, s4) | Some t \<Rightarrow> Inr (Freed, s5)) \<and>
      store_ok s4 \<and> vec_heap s4 ! p \<noteq> None \<and>
      currentInstanceIdx s4 = 1 - currentInstanceIdx s \<and>
      blocks (cur_instance s4) = Some (length (vec_heap s)) \<and>
      store_ok s5 \<and> vec_heap s5 ! p = None \<and>
      currentInstanceIdx s5 = 1 - currentInstanceIdx s \<and>
      blocks (cur_instance s5) = Some (length (vec_heap s))"
proof -
  from grow_then_free [OF assms] obtain p s4 s5 where
    p: "blocks (cur_instance s) = Some p" "p < length (vec_heap s)" "vec_heap s ! p \<noteq> None"
    and d: "0 < to_int (int (to_size_t (blockIdx + 1)) - int (len (cur_instance s)))"
    and g: "grow_instance blockIdx (currentInstanceIdx s) s = Inr s4" "tls_list s4 = tls_list s"
      "blocks (chpl_priv_instances s4 ! currentInstanceIdx s) = Some p"
    and s4: "vec_heap s4 ! p \<noteq> None" "store_ok s4"
      "currentInstanceIdx s4 = 1 - currentInstanceIdx s"
      "blocks (cur_instance s4) = Some (length (vec_heap s))"
    and f: "free_vec (Some p) s4 = Inr s5"
    and s5: "vec_heap s5 ! p = None" "store_ok s5"
      "blocks (cur_instance s5) = Some (length (vec_heap s))"
      "currentInstanceIdx s5 = 1 - currentInstanceIdx s"
    by blast
  have l: "currentInstanceIdx s < length (chpl_priv_instances s)"
    using ok by (simp add: store_ok_def)
  have "write_section_observed fuel poll blockIdx s =
        (case wait_reads fuel (map poll [0..<length (tls_list s)]) (currentInstanceIdx s) 0 of
           None \<Rightarrow> Inr (Waiting, s4) | Some t \<Rightarrow> Inr (Freed, s5))"
    using l b(2) d g f
    by (simp add: write_section_observed_def getCurrentInstanceIdx_def cur_instance_def
        split: option.splits)
  with p s4 s5 show ?thesis by blast
qed


lemma fill_blocks_tls:
  "fill_blocks nb i b s = Inr s' \<Longrightarrow> tls_list s' = tls_list s"
proof (induction nb i b s rule: fill_blocks.induct)
  case (1 newBlocks i blockIdx s)
  show ?case
  proof (cases "i \<le> blockIdx")
    case False
    with 1(2) show ?thesis by (simp add: fill_blocks.simps)
  next
    case True
    obtain b s1 where c: "chpl_priv_block_create s = (b, s1)" by (cases "chpl_priv_block_create s")
    then have t1: "tls_list s1 = tls_list s" by (auto simp: chpl_priv_block_create_def)
    from 1(2) True c obtain vec where
      v: "\<not> newBlocks \<ge> length (vec_heap s1)" "vec_heap s1 ! newBlocks = Some vec"
        "\<not> (i < 0 \<or> i \<ge> int (length vec))" "i \<noteq> INT_MAX"
      and r: "fill_blocks newBlocks (i + 1) blockIdx
               (s1\<lparr>vec_heap := (vec_heap s1)[newBlocks := Some (vec[nat i := Some b])]\<rparr>) = Inr s'"
      by (subst (asm) fill_blocks.simps) (auto split: if_splits option.splits)
    from 1(1) [OF True c [symmetric] v(1) v(2) v(3) v(4) r]
    show ?thesis using t1 by simp
  qed
qed

lemma grow_instance_tls:
  "grow_instance b i s = Inr s' \<Longrightarrow> tls_list s' = tls_list s"
  by (auto simp: grow_instance_def alloc_vec_def copy_blocks_def Let_def
      dest!: fill_blocks_tls split: sum.splits option.splits if_splits prod.splits)

lemma write_section_is_observed:
  assumes "length (tls_list s) \<le> fuel"
  shows "write_section blockIdx s =
     (case write_section_observed fuel (frozen_poll s) blockIdx s of
        Inl e \<Rightarrow> Some (Inl e)
      | Inr (pr, s') \<Rightarrow> if pr = Waiting then None else Some (Inr s'))"
proof -
  have w: "wait_for_readers (tls_list s1) i =
      (case wait_reads fuel (map (frozen_poll s) [0..<length (tls_list s1)]) i 0 of
         None \<Rightarrow> None | Some t \<Rightarrow> Some ())" if "tls_list s1 = tls_list s" for s1 i
  proof -
    have 1: "wait_for_readers (tls_list s) i = (if quiescent s i then Some () else None)"
      using wait_for_readers_iff [of "tls_list s" i]
      by (cases "wait_for_readers (tls_list s) i") (auto simp: quiescent_def)
    have 2: "wait_reads fuel (map (frozen_poll s) [0..<length (tls_list s)]) i 0 = None \<longleftrightarrow>
        \<not> quiescent s i"
      using wait_reads_frozen_poll [of fuel s i] assms by auto
    show ?thesis unfolding that 1 using 2
      by (cases "wait_reads fuel (map (frozen_poll s) [0..<length (tls_list s)]) i 0") auto
  qed
  show ?thesis
    by (auto simp: write_section_def write_section_observed_def Let_def w
        dest: grow_instance_tls split: sum.splits option.splits)
qed

lemma three_threads_ok:
  "store_ok three_threads \<and> len (cur_instance three_threads) = 1 \<and>
   currentInstanceIdx three_threads = 0 \<and> length (tls_list three_threads) = 3 \<and>
   blocks (cur_instance three_threads) = Some 0 \<and> \<not> quiescent three_threads 0"
  using initial_ok
  by (simp add: three_threads_def initial_eq store_ok_def cur_vec_def cur_instance_def
      registry_ok_def quiescent_def)

lemma wait_late_reader:
  "wait_reads 4 (map late_reader_poll [0..<3]) 0 0 = Some 4"
  by code_simp

section \<open>The claims\<close>

subsection \<open>C1: reclaim-then-create in \<open>init_tls\<close>\<close>

text \<open>
  C1. The claim: a thread whose compare-and-swap on a free node succeeds adopts that
  node and allocates nothing. The code does the opposite: a successful compare-and-swap
  makes the loop condition true, so the walk continues past the node it has just marked
  \<open>in_use\<close>. On the roster with one free node, a thread running alone marks that node,
  reaches the end of the list, allocates a fresh node (whose \<open>in_use\<close> stays \<open>false\<close>),
  splices it at the head and binds it.
\<close>

theorem init_tls_skips_reclaimed_node:
  "init_tls (static_init\<lparr>tls_list := [\<lparr>in_use = False, status = -1\<rparr>]\<rparr>) =
   static_init\<lparr>tls_list := [\<lparr>in_use = False, status = -1\<rparr>, \<lparr>in_use = True, status = -1\<rparr>],
               reader_tls := Some 1\<rparr>"
  by (simp add: init_tls_def init_tls_from_def sync_bool_compare_and_swap_def new_tls_node_def)

text \<open>With no other thread interfering, \<open>init_tls\<close> never reclaims: it always allocates.\<close>

lemma init_tls_always_allocates:
  "tls_list (init_tls s) = new_tls_node # map (\<lambda>nd. nd\<lparr>in_use := True\<rparr>) (tls_list s) \<and>
   reader_tls (init_tls s) = Some (length (tls_list s))"
  by (simp add: init_tls_def init_tls_from_def walk_seq)

text \<open>A node is bound exactly when the compare-and-swap fails, that is when another
  thread has taken the node in between.\<close>

lemma init_tls_adopts_on_failed_cas:
  "init_tls_from (\<lambda>k. True) (static_init\<lparr>tls_list := [\<lparr>in_use = False, status = 0\<rparr>]\<rparr>) =
   static_init\<lparr>tls_list := [\<lparr>in_use = True, status = 0\<rparr>], reader_tls := Some 0\<rparr>"
  by (simp add: init_tls_from_def sync_bool_compare_and_swap_def)

subsection \<open>C2: get of a pid that was never published\<close>

text \<open>
  C2, as stated: \<open>get\<close> of a never-published pid returns null, the slot read being in
  bounds even when \<open>pid / BLOCK_SIZE \<ge> len\<close>. \<open>chpl_getPrivatizedClass\<close> indexes
  \<open>blocks[blockIdx][idx]\<close> without comparing \<open>blockIdx\<close> with \<open>len\<close>: right after
  \<open>init()\<close> the vector has one entry and \<open>get(1024)\<close> reads entry 1, out of bounds.
\<close>

theorem get_unpublished_counterexample:
  "0 \<le> sint (1024 :: pid_t) \<and> observe (get_value 1024) [] = Some (Inl OutOfBounds)"
proof -
  from slot_ofD [OF slot_small(2)] have e1: "blockIdx_of 1024 = 1" by simp
  have "get_value 1024 initial = Inl OutOfBounds"
    by (rule get_value_out [OF initial_ok]) (simp add: e1 initial_len)
  then show ?thesis by (simp add: observe_nil)
qed

text \<open>
  C2, amended: after any list of operations run from \<open>init()\<close>, for every non-negative pid
  inside the current capacity (\<open>pid / BLOCK_SIZE < len\<close>) whose slot no publish of the list
  addressed (for pids below \<open>2 ^ 41\<close>: that was never published), \<open>get(pid)\<close> returns
  null.
\<close>

theorem get_unpublished:
  assumes "run ops initial = Some (Inr s)"
    and "\<forall>v q. Publish v q \<in> set ops \<longrightarrow> slot_of q \<noteq> slot_of pid"
    and "0 \<le> sint pid" "sint pid div CHPL_PRIVATIZATION_BLOCK_SIZE < int (len (cur_instance s))"
  shows "get_value pid s = Inr 0"
  using assms by (rule never_published_null)

theorem get_unpublished_witness:
  "\<exists>s. run [Publish 7 5000, Clear 3] initial = Some (Inr s) \<and>
     (\<forall>v q. Publish v q \<in> set [Publish 7 5000, Clear 3] \<longrightarrow> slot_of q \<noteq> slot_of 2048) \<and>
     0 \<le> sint (2048 :: pid_t) \<and>
     sint (2048 :: pid_t) div CHPL_PRIVATIZATION_BLOCK_SIZE < int (len (cur_instance s)) \<and>
     get_value 2048 s = Inr 0"
proof -
  from publish_grow_initial [OF slot_small(5), of 7] obtain s1 where
    s1: "chpl_newPrivatizedClass 7 5000 initial = Some (Inr s1)" "registry_ok s1"
      "len (cur_instance s1) = 5"
    by (auto simp: INT_MAX_def CHPL_PRIVATIZATION_BLOCK_SIZE_def)
  from slot_ofD [OF slot_small(6)] have e3: "blockIdx_of 3 = 0" "idx_of 3 = 3" by simp_all
  have r: "0 \<le> blockIdx_of 3" "blockIdx_of 3 < int (len (cur_instance s1))"
       "0 \<le> idx_of 3" "idx_of 3 < CHPL_PRIVATIZATION_BLOCK_SIZE"
    by (simp_all add: e3 s1(3) CHPL_PRIVATIZATION_BLOCK_SIZE_def)
  from clear_in [OF s1(2) r] obtain s2 where
    s2: "chpl_clearPrivatizedClass 3 s1 = Inr s2" "cur_instance s2 = cur_instance s1"
    by blast
  have run: "run [Publish 7 5000, Clear 3] initial = Some (Inr s2)"
    by (simp add: s1(1) s2(1))
  have np: "\<forall>v q. Publish v q \<in> set [Publish 7 5000, Clear 3] \<longrightarrow> slot_of q \<noteq> slot_of 2048"
    by (simp add: slot_small)
  have h: "0 \<le> sint (2048 :: pid_t)"
    "sint (2048 :: pid_t) div CHPL_PRIVATIZATION_BLOCK_SIZE < int (len (cur_instance s2))"
    by (simp_all add: s2(2) s1(3) CHPL_PRIVATIZATION_BLOCK_SIZE_def)
  from get_unpublished [OF run np h] run np h show ?thesis by blast
qed

subsection \<open>C3: quiescence before the old vector is freed\<close>

text \<open>
  C3, as stated: the old blocks vector is freed only after every node of the roster has a
  status different from the old index. With readers running this fails. In
  \<open>three_threads\<close> the current instance is 0 and its vector is at address 0; the writer
  grows to two blocks while the roster reads as \<open>late_reader_poll\<close>. After three reads the
  writer is still waiting and the vector is allocated; after the fourth read it has freed
  the vector. At every read from the first to the free some node shows the old index 0:
  node 1 at read 0, node 0 at reads 1 to 3 and still when the vector is freed.
\<close>

theorem free_while_status_old_counterexample:
  "blocks (cur_instance three_threads) = Some 0 \<and> currentInstanceIdx three_threads = 0 \<and>
   map_sum id fst (write_section_observed 3 late_reader_poll 1 three_threads) = Inr Waiting \<and>
   map_sum id (vec_heap \<circ> snd) (write_section_observed 3 late_reader_poll 1 three_threads) =
     Inr [Some [Some 0], Some [Some 0, Some 1]] \<and>
   map_sum id fst (write_section_observed 4 late_reader_poll 1 three_threads) = Inr Freed \<and>
   map_sum id (vec_heap \<circ> snd) (write_section_observed 4 late_reader_poll 1 three_threads) =
     Inr [None, Some [Some 0, Some 1]] \<and>
   uint (late_reader_poll 1 0) = 0 \<and> uint (late_reader_poll 0 1) = 0 \<and>
   uint (late_reader_poll 0 2) = 0 \<and> uint (late_reader_poll 0 3) = 0 \<and>
   uint (late_reader_poll 0 4) = 0"
  by code_simp

text \<open>
  C3, amended: a writer that grows the registry frees the old instance's blocks vector,
  which by then is no longer the current one, only after it has read from every node of
  the roster, in list order, a status different from the old index; each node is only
  known to differ at the moment the writer reads it. While the writer waits the old vector
  stays allocated. If no status changes during the scan, the wait completes exactly when
  every node has a status different from the old index, and then the section is
  \<open>write_section\<close>.
\<close>

theorem free_after_reads:
  assumes "store_ok s" "int (len (cur_instance s)) \<le> blockIdx" "blockIdx < INT_MAX"
  shows "\<exists>p pr s'. blocks (cur_instance s) = Some p \<and> vec_heap s ! p \<noteq> None \<and>
     write_section_observed fuel poll blockIdx s = Inr (pr, s') \<and>
     (pr = Waiting \<or> pr = Freed) \<and>
     store_ok s' \<and> currentInstanceIdx s' \<noteq> currentInstanceIdx s \<and>
     blocks (cur_instance s') \<noteq> Some p \<and>
     (vec_heap s' ! p = None \<longleftrightarrow> pr = Freed) \<and>
     (vec_heap s' ! p = None \<longrightarrow>
        (\<exists>us. length us = length (tls_list s) \<and> sorted_wrt (<) us \<and>
           (\<forall>k<length (tls_list s). us ! k < fuel \<and>
              uint (poll k (us ! k)) \<noteq> int (currentInstanceIdx s)))) \<and>
     (pr = Freed \<longleftrightarrow>
        wait_reads fuel (map poll [0..<length (tls_list s)]) (currentInstanceIdx s) 0 \<noteq> None) \<and>
     ((\<forall>k t. poll k t = poll k 0) \<longrightarrow>
        (pr = Freed \<longleftrightarrow>
           length (tls_list s) \<le> fuel \<and>
           (\<forall>k<length (tls_list s). uint (poll k 0) \<noteq> int (currentInstanceIdx s)))) \<and>
     (poll = frozen_poll s \<and> length (tls_list s) \<le> fuel \<longrightarrow>
        (pr = Freed \<longleftrightarrow> quiescent s (currentInstanceIdx s)) \<and>
        write_section blockIdx s = (if pr = Freed then Some (Inr s') else None))"
proof -
  let ?w = "wait_reads fuel (map poll [0..<length (tls_list s)]) (currentInstanceIdx s) 0"
  from write_section_observed_grow [OF assms, of fuel poll] obtain p s4 s5 where
    p: "blocks (cur_instance s) = Some p" "vec_heap s ! p \<noteq> None"
    and w: "write_section_observed fuel poll blockIdx s =
        (case ?w of None \<Rightarrow> Inr (Waiting, s4) | Some t \<Rightarrow> Inr (Freed, s5))"
    and s4: "store_ok s4" "vec_heap s4 ! p \<noteq> None"
      "currentInstanceIdx s4 = 1 - currentInstanceIdx s"
      "blocks (cur_instance s4) = Some (length (vec_heap s))"
    and s5: "store_ok s5" "vec_heap s5 ! p = None"
      "currentInstanceIdx s5 = 1 - currentInstanceIdx s"
      "blocks (cur_instance s5) = Some (length (vec_heap s))"
    and pl: "p < length (vec_heap s)"
    by blast
  have c: "currentInstanceIdx s < 2" using assms(1) by (simp add: store_ok_def)
  have ne: "1 - currentInstanceIdx s \<noteq> currentInstanceIdx s" using c by arith
  have np: "Some (length (vec_heap s)) \<noteq> Some p" using pl by simp
  have fz: "poll = frozen_poll s \<and> length (tls_list s) \<le> fuel \<longrightarrow>
      (?w \<noteq> None \<longleftrightarrow> quiescent s (currentInstanceIdx s))"
    using wait_reads_frozen_poll [of fuel s "currentInstanceIdx s"] by auto
  have cn: "(\<forall>k t. poll k t = poll k 0) \<longrightarrow>
      (?w \<noteq> None \<longleftrightarrow> length (tls_list s) \<le> fuel \<and>
           (\<forall>k<length (tls_list s). uint (poll k 0) \<noteq> int (currentInstanceIdx s)))"
    using wait_reads_const [of poll fuel "length (tls_list s)" "currentInstanceIdx s"] by blast
  have ws: "poll = frozen_poll s \<and> length (tls_list s) \<le> fuel \<longrightarrow>
      write_section blockIdx s =
        (case ?w of None \<Rightarrow> None | Some t \<Rightarrow> Some (Inr s5))"
    using write_section_is_observed [of s fuel blockIdx] w
    by (auto split: option.splits)
  show ?thesis
  proof (cases ?w)
    case None
    have "write_section_observed fuel poll blockIdx s = Inr (Waiting, s4)"
      using w None by simp
    moreover have "poll = frozen_poll s \<and> length (tls_list s) \<le> fuel \<longrightarrow>
        write_section blockIdx s = None" using ws None by auto
    ultimately show ?thesis using p s4 ne np fz cn None
      by (intro exI [of _ p] exI [of _ Waiting] exI [of _ s4]) auto
  next
    case (Some t')
    from wait_reads_Some [OF Some] obtain us where
      t: "t' \<le> fuel"
      and us: "length us = length (map poll [0..<length (tls_list s)])" "sorted_wrt (<) us"
        "\<forall>k<length (map poll [0..<length (tls_list s)]). 0 \<le> us ! k \<and> us ! k < t' \<and>
           uint ((map poll [0..<length (tls_list s)] ! k) (us ! k)) \<noteq> int (currentInstanceIdx s)"
      by auto
    have r: "\<exists>us. length us = length (tls_list s) \<and> sorted_wrt (<) us \<and>
           (\<forall>k<length (tls_list s). us ! k < fuel \<and>
              uint (poll k (us ! k)) \<noteq> int (currentInstanceIdx s))"
      using us t by (intro exI [of _ us]) auto
    have "write_section_observed fuel poll blockIdx s = Inr (Freed, s5)"
      using w Some by simp
    moreover have "poll = frozen_poll s \<and> length (tls_list s) \<le> fuel \<longrightarrow>
        write_section blockIdx s = Some (Inr s5)" using ws Some by auto
    ultimately show ?thesis using p s5 ne np fz cn Some r
      by (intro exI [of _ p] exI [of _ Freed] exI [of _ s5]) auto
  qed
qed

theorem free_after_reads_witness:
  "store_ok three_threads \<and> int (len (cur_instance three_threads)) \<le> 1 \<and> (1 :: int) < INT_MAX \<and>
   (\<exists>s'. write_section_observed 4 late_reader_poll 1 three_threads = Inr (Freed, s') \<and>
      vec_heap s' ! 0 = None \<and> blocks (cur_instance s') \<noteq> Some 0 \<and> store_ok s' \<and>
      currentInstanceIdx s' \<noteq> 0 \<and>
      (\<exists>us. length us = 3 \<and> sorted_wrt (<) us \<and>
         (\<forall>k<3. us ! k < 4 \<and> uint (late_reader_poll k (us ! k)) \<noteq> 0))) \<and>
   (\<exists>s'. write_section_observed 3 (frozen_poll three_threads) 1 three_threads = Inr (Waiting, s') \<and>
      vec_heap s' ! 0 \<noteq> None \<and> blocks (cur_instance s') \<noteq> Some 0 \<and>
      write_section 1 three_threads = None)"
proof -
  note t = three_threads_ok
  have h: "store_ok three_threads" "int (len (cur_instance three_threads)) \<le> 1"
    "(1 :: int) < INT_MAX"
    using t by (simp_all add: INT_MAX_def)
  from free_after_reads [OF h, of 4 late_reader_poll] wait_late_reader
  have 1: "\<exists>s'. write_section_observed 4 late_reader_poll 1 three_threads = Inr (Freed, s') \<and>
      vec_heap s' ! 0 = None \<and> blocks (cur_instance s') \<noteq> Some 0 \<and> store_ok s' \<and>
      currentInstanceIdx s' \<noteq> 0 \<and>
      (\<exists>us. length us = 3 \<and> sorted_wrt (<) us \<and>
         (\<forall>k<3. us ! k < 4 \<and> uint (late_reader_poll k (us ! k)) \<noteq> 0))"
    by (simp add: t) blast
  from free_after_reads [OF h, of 3 "frozen_poll three_threads"]
  obtain p pr s' where
    a: "blocks (cur_instance three_threads) = Some p"
      "write_section_observed 3 (frozen_poll three_threads) 1 three_threads = Inr (pr, s')"
      "pr = Waiting \<or> pr = Freed" "blocks (cur_instance s') \<noteq> Some p"
      "vec_heap s' ! p = None \<longleftrightarrow> pr = Freed"
      "frozen_poll three_threads = frozen_poll three_threads \<and>
         length (tls_list three_threads) \<le> 3 \<longrightarrow>
        (pr = Freed \<longleftrightarrow> quiescent three_threads (currentInstanceIdx three_threads)) \<and>
        write_section 1 three_threads = (if pr = Freed then Some (Inr s') else None)"
    apply (elim exE conjE)
    apply (rule that)
    apply assumption+
    done
  from a(1) t have p: "p = 0" by simp
  from a(6) t have nf: "pr \<noteq> Freed" "write_section 1 three_threads = None" by simp_all
  with a(3) have "pr = Waiting" by simp
  with a(2,4,5) nf p
  have 2: "\<exists>s'. write_section_observed 3 (frozen_poll three_threads) 1 three_threads =
        Inr (Waiting, s') \<and>
      vec_heap s' ! 0 \<noteq> None \<and> blocks (cur_instance s') \<noteq> Some 0 \<and>
      write_section 1 three_threads = None"
    by (intro exI [of _ s']) simp
  from h 1 2 show ?thesis by blast
qed

subsection \<open>C4: publish then get\<close>

text \<open>
  C4, as stated: for every non-negative pid \<open>p\<close>, \<open>publish(p, v)\<close> followed by \<open>get(p)\<close>
  returns \<open>v\<close>. For \<open>p = 2 ^ 41\<close> the quotient \<open>2 ^ 31\<close> does not fit \<open>int blockIdx\<close> and
  becomes \<open>- 2 ^ 31\<close>; the reader test \<open>blockIdx >= len\<close> (in \<open>size_t\<close>) sends the call to
  the writer path, where \<open>deltaBlocks\<close> is negative, so the writer releases the lock and
  the loop goes round again, for ever: the publish never returns, and no get follows.
\<close>

theorem publish_get_counterexample:
  "0 \<le> sint (2 ^ 41 :: pid_t) \<and> observe (get_value (2 ^ 41)) [Publish 7 (2 ^ 41)] = None"
  using observe_publish_None [OF publish_2_41_diverges, of "get_value (2 ^ 41)" 7] by simp

text \<open>
  C4, amended: in a single-threaded execution after \<open>init()\<close> (the state reached by any
  list of operations that returned), for every pid \<open>p\<close> with \<open>0 \<le> p\<close> and
  \<open>p / BLOCK_SIZE < INT_MAX\<close> and every pointer \<open>v\<close>, \<open>publish(p, v)\<close> returns and a following
  \<open>get(p)\<close> returns \<open>v\<close>, also when the publish had to grow the instance.
\<close>

theorem publish_then_get:
  assumes "run ops initial = Some (Inr s)"
    and "0 \<le> sint p" "sint p div CHPL_PRIVATIZATION_BLOCK_SIZE < INT_MAX"
  shows "\<exists>s'. chpl_newPrivatizedClass v p s = Some (Inr s') \<and> get_value p s' = Inr v"
proof -
  from publish_valid [OF reach_ok [OF assms(1)] valid_pid(3-6) [OF assms(2,3)], of v]
  obtain s' where s': "chpl_newPrivatizedClass v p s = Some (Inr s')" "publish_post v p s s'"
    by blast
  then have "get_value p s' = Inr v"
    by (simp add: publish_post_def get_value_eq)
  with s'(1) show ?thesis by blast
qed

theorem publish_then_get_witness:
  "run [] initial = Some (Inr initial) \<and> 0 \<le> sint (5000 :: pid_t) \<and>
   sint (5000 :: pid_t) div CHPL_PRIVATIZATION_BLOCK_SIZE < INT_MAX \<and>
   (\<exists>s'. chpl_newPrivatizedClass 7 5000 initial = Some (Inr s') \<and> get_value 5000 s' = Inr 7)"
  using publish_then_get [of "[]" initial 5000 7]
  by (simp add: CHPL_PRIVATIZATION_BLOCK_SIZE_def INT_MAX_def)

subsection \<open>C5: independence of pids\<close>

text \<open>
  C5, as stated: for distinct non-negative pids \<open>a\<close> and \<open>b\<close>, \<open>publish(a, x)\<close> leaves
  \<open>get(b)\<close> unchanged. Two ways in which the code does otherwise: pid \<open>2 ^ 42\<close> shares the
  slot of pid 0 (the block index is truncated to \<open>int\<close>), so publishing pid 0 changes what
  \<open>get(2 ^ 42)\<close> returns; and \<open>get(1024)\<close> reads outside the one-block vector before
  \<open>publish(2048, x)\<close> grows it and returns null after.
\<close>

theorem publish_independent_counterexample:
  "(2 ^ 42 :: pid_t) \<noteq> 0 \<and> 0 \<le> sint (2 ^ 42 :: pid_t) \<and>
   observe (get_value (2 ^ 42)) [] = Some (Inr 0) \<and>
   observe (get_value (2 ^ 42)) [Publish 7 0] = Some (Inr 7) \<and>
   observe (get_value 1024) [] = Some (Inl OutOfBounds) \<and>
   observe (get_value 1024) [Publish 7 2048] = Some (Inr 0)"
proof -
  from slot_ofD [OF slot_big(1)] have e: "blockIdx_of (2 ^ 42) = 0" "idx_of (2 ^ 42) = 0"
    by simp_all
  from slot_ofD [OF slot_small(1)] have e0: "blockIdx_of 0 = 0" "idx_of 0 = 0"
    by simp_all
  from slot_ofD [OF slot_small(2)] have e1: "blockIdx_of 1024 = 1" "idx_of 1024 = 0"
    by simp_all
  have a: "get_value (2 ^ 42) initial = Inr 0"
    unfolding get_value_eq [OF initial_ok] e
    by (simp add: initial_eq load_slot_def block_at_def zero_block_def CHPL_PRIVATIZATION_BLOCK_SIZE_def)
  have r0: "0 \<le> blockIdx_of 0" "blockIdx_of 0 < int (len (cur_instance initial))"
       "0 \<le> idx_of 0" "idx_of 0 < CHPL_PRIVATIZATION_BLOCK_SIZE"
    by (simp_all add: e0 initial_len CHPL_PRIVATIZATION_BLOCK_SIZE_def)
  from publish_in [OF initial_ok r0, of 7] obtain s1 where
    s1: "chpl_newPrivatizedClass 7 0 initial = Some (Inr s1)" "registry_ok s1"
      "currentInstanceIdx s1 = currentInstanceIdx initial"
      "load_slot s1 (currentInstanceIdx initial) 0 0 = Inr 7"
    unfolding e0 by blast
  have b: "get_value (2 ^ 42) s1 = Inr 7"
    unfolding get_value_eq [OF s1(2)] e using s1(3,4) by simp
  have c: "get_value 1024 initial = Inl OutOfBounds"
    by (rule get_value_out [OF initial_ok]) (simp add: e1 initial_len)
  from publish_grow_initial [OF slot_small(3), of 7] obtain s2 where
    s2: "chpl_newPrivatizedClass 7 2048 initial = Some (Inr s2)" "registry_ok s2"
      "\<And>b' i'. (b', i') \<noteq> (2, 0) \<and> 0 \<le> b' \<and> b' \<le> 2 \<and> 0 \<le> i' \<and>
         i' < CHPL_PRIVATIZATION_BLOCK_SIZE \<Longrightarrow> load_slot s2 (currentInstanceIdx s2) b' i' = Inr 0"
    by (auto simp: INT_MAX_def CHPL_PRIVATIZATION_BLOCK_SIZE_def)
  have d: "get_value 1024 s2 = Inr 0"
    unfolding get_value_eq [OF s2(2)] e1
    by (rule s2(3)) (simp add: CHPL_PRIVATIZATION_BLOCK_SIZE_def)
  show ?thesis
    using a b c d
    by (simp add: observe_nil observe_publish [OF s1(1)] observe_publish [OF s2(1)])
qed

text \<open>
  C5, amended: for distinct pids \<open>a\<close> and \<open>b\<close> with \<open>0 \<le> a\<close>, \<open>a / BLOCK_SIZE < INT_MAX\<close>,
  \<open>0 \<le> b\<close> and \<open>b\<close> inside the current capacity (\<open>b / BLOCK_SIZE < len\<close>),
  \<open>publish(a, x)\<close> returns and \<open>get(b)\<close> returns the same value before and after, also
  when the publish grows the instance.
\<close>

theorem publish_independent:
  assumes "run ops initial = Some (Inr s)"
    and "0 \<le> sint a" "sint a div CHPL_PRIVATIZATION_BLOCK_SIZE < INT_MAX"
    and "0 \<le> sint b" "sint b div CHPL_PRIVATIZATION_BLOCK_SIZE < int (len (cur_instance s))"
    and "a \<noteq> b"
  shows "\<exists>s'. chpl_newPrivatizedClass x a s = Some (Inr s') \<and> get_value b s' = get_value b s"
proof -
  note ok = reach_ok [OF assms(1)]
  note va = valid_pid [OF assms(2,3)]
  from ok obtain vec :: "addr option list" where
    lv: "length vec = len (cur_instance s)" "int (length vec) \<le> INT_MAX"
    unfolding registry_ok_def store_ok_alt by blast
  have bm: "sint b div CHPL_PRIVATIZATION_BLOCK_SIZE < INT_MAX"
    using assms(5) lv by linarith
  note vb = valid_pid [OF assms(4) bm]
  have "sint a < 2 ^ 41" "sint b < 2 ^ 41"
    using assms(3) bm by (simp_all add: CHPL_PRIVATIZATION_BLOCK_SIZE_def INT_MAX_def)
  from slot_of_inj [OF assms(2) this(1) assms(4) this(2) assms(6)]
  have ne: "(blockIdx_of b, idx_of b) \<noteq> slot_of a" by (auto simp: slot_of_def)
  from publish_valid [OF ok va(3-6), of x]
  obtain s' where s': "chpl_newPrivatizedClass x a s = Some (Inr s')" "publish_post x a s s'"
    by blast
  have "blockIdx_of b < int (len (cur_instance s))" using assms(5) by (simp add: vb(1))
  with s'(2) ne have "load_slot s' (currentInstanceIdx s') (blockIdx_of b) (idx_of b)
      = load_slot s (currentInstanceIdx s) (blockIdx_of b) (idx_of b)"
    by (simp add: publish_post_def)
  moreover from s'(2) have "registry_ok s'" by (simp add: publish_post_def)
  ultimately have "get_value b s' = get_value b s"
    by (simp add: get_value_eq ok)
  with s'(1) show ?thesis by blast
qed

theorem publish_independent_witness:
  "run [] initial = Some (Inr initial) \<and> 0 \<le> sint (5000 :: pid_t) \<and>
   sint (5000 :: pid_t) div CHPL_PRIVATIZATION_BLOCK_SIZE < INT_MAX \<and> 0 \<le> sint (3 :: pid_t) \<and>
   sint (3 :: pid_t) div CHPL_PRIVATIZATION_BLOCK_SIZE < int (len (cur_instance initial)) \<and>
   (5000 :: pid_t) \<noteq> 3 \<and>
   (\<exists>s'. chpl_newPrivatizedClass 7 5000 initial = Some (Inr s') \<and>
         get_value 3 s' = get_value 3 initial)"
  using publish_independent [of "[]" initial 5000 3 7]
  by (simp add: CHPL_PRIVATIZATION_BLOCK_SIZE_def INT_MAX_def initial_len)

subsection \<open>C6: monotone capacity\<close>

text \<open>
  C6: over any list of publish, get, clear and capacity operations after \<open>init()\<close>,
  \<open>capacity()\<close> is non-decreasing: between any two states of a run \<open>len\<close> of the current
  instance does not shrink, and whenever the instance pair was touched in between (a grow
  allocated a vector, rewrote an instance or switched \<open>currentInstanceIdx\<close>), \<open>len\<close> is
  strictly larger.
\<close>

theorem capacity_monotone:
  assumes "run ops initial = Some (Inr s)" and "run rest s = Some (Inr s')"
  shows "\<exists>c c'. capacity s = Inr c \<and> capacity s' = Inr c' \<and> c \<le> c' \<and>
     len (cur_instance s) \<le> len (cur_instance s') \<and>
     (vec_heap s' \<noteq> vec_heap s \<or> chpl_priv_instances s' \<noteq> chpl_priv_instances s \<or>
      currentInstanceIdx s' \<noteq> currentInstanceIdx s \<longrightarrow>
        len (cur_instance s) < len (cur_instance s'))"
proof -
  note ok = reach_ok [OF assms(1)]
  from run_sound [OF ok assms(2)] have r:
    "registry_ok s'" "len (cur_instance s) \<le> len (cur_instance s')"
    "len (cur_instance s') = len (cur_instance s) \<longrightarrow>
        vec_heap s' = vec_heap s \<and> chpl_priv_instances s' = chpl_priv_instances s \<and>
        currentInstanceIdx s' = currentInstanceIdx s"
    by simp_all
  have "int (len (cur_instance s)) * CHPL_PRIVATIZATION_BLOCK_SIZE
      \<le> int (len (cur_instance s')) * CHPL_PRIVATIZATION_BLOCK_SIZE"
    using r(2) by (simp add: CHPL_PRIVATIZATION_BLOCK_SIZE_def)
  moreover have "vec_heap s' \<noteq> vec_heap s \<or> chpl_priv_instances s' \<noteq> chpl_priv_instances s \<or>
      currentInstanceIdx s' \<noteq> currentInstanceIdx s \<longrightarrow>
        len (cur_instance s) < len (cur_instance s')"
    using r(2,3) by linarith
  ultimately show ?thesis
    using capacity_eq [OF ok] capacity_eq [OF r(1)] r(2) by blast
qed

theorem capacity_monotone_witness:
  "\<exists>s'. run [] initial = Some (Inr initial) \<and>
      run [Capacity, Publish 7 5000, Get 3] initial = Some (Inr s') \<and>
      (\<exists>c c'. capacity initial = Inr c \<and> capacity s' = Inr c' \<and> c \<le> c') \<and>
      len (cur_instance initial) \<le> len (cur_instance s')"
proof -
  from capacity_ok [OF initial_ok] obtain s1 where
    s1: "chpl_numPrivatizedClasses initial =
            Inr (int (len (cur_instance initial)) * CHPL_PRIVATIZATION_BLOCK_SIZE, s1)"
      "registry_ok s1"
    by blast
  from slot_ofD [OF slot_small(5)] have e: "blockIdx_of 5000 = 4" "idx_of 5000 = 904" by simp_all
  have "\<exists>s2. chpl_newPrivatizedClass 7 5000 s1 = Some (Inr s2) \<and> publish_post 7 5000 s1 s2"
    by (rule publish_valid [OF s1(2)]) (simp_all add: e INT_MAX_def CHPL_PRIVATIZATION_BLOCK_SIZE_def)
  then obtain s2 where s2: "chpl_newPrivatizedClass 7 5000 s1 = Some (Inr s2)" "registry_ok s2"
    by (auto simp: publish_post_def)
  have run2: "run [Capacity, Publish 7 5000] initial = Some (Inr s2)"
    by (simp add: s1(1) s2(1))
  have np: "\<forall>v q. Publish v q \<in> set [Capacity, Publish 7 5000] \<longrightarrow> slot_of q \<noteq> slot_of 3"
    by (simp add: slot_small)
  have le: "len (cur_instance initial) \<le> len (cur_instance s2)"
    using run_sound [OF initial_ok run2] by simp
  have "get_value 3 s2 = Inr 0"
    using le by (intro never_published_null [OF run2 np])
      (simp_all add: CHPL_PRIVATIZATION_BLOCK_SIZE_def initial_len)
  then obtain s3 where s3: "chpl_getPrivatizedClass 3 s2 = Inr (0, s3)"
    by (cases "chpl_getPrivatizedClass 3 s2") (auto simp: get_value_def)
  have run: "run [Capacity, Publish 7 5000, Get 3] initial = Some (Inr s3)"
    by (simp add: s1(1) s2(1) s3)
  have r0: "run [] initial = Some (Inr initial)" by simp
  from capacity_monotone [OF r0 run] r0 run show ?thesis by blast
qed

subsection \<open>C7: idempotent growth\<close>

text \<open>
  C7: inside the write critical section, when \<open>len\<close> of the current instance already
  exceeds the requested \<open>blockIdx\<close>, the writer returns for a retry and leaves the whole
  state as it was; \<open>publish(BLOCK_SIZE, v)\<close> from the initial one-block state allocates
  exactly one new vector and switches the instance once (\<open>len\<close> becomes 2), and a
  following \<open>publish(BLOCK_SIZE - 1, w)\<close> allocates none and leaves both instances and
  \<open>currentInstanceIdx\<close> alone.
\<close>

theorem growth_idempotent:
  "(\<forall>s b. store_ok s \<and> 0 \<le> b \<and> b < int (len (cur_instance s)) \<longrightarrow>
       write_section b s = Some (Inr s)) \<and>
   (\<exists>s1 s2. chpl_newPrivatizedClass v 1024 initial = Some (Inr s1) \<and>
       length (vec_heap s1) = Suc (length (vec_heap initial)) \<and>
       currentInstanceIdx s1 \<noteq> currentInstanceIdx initial \<and>
       len (cur_instance s1) = 2 \<and>
       chpl_newPrivatizedClass w 1023 s1 = Some (Inr s2) \<and>
       vec_heap s2 = vec_heap s1 \<and> chpl_priv_instances s2 = chpl_priv_instances s1 \<and>
       currentInstanceIdx s2 = currentInstanceIdx s1)"
proof (intro conjI allI impI)
  fix s b assume a: "store_ok s \<and> 0 \<le> b \<and> b < int (len (cur_instance s))"
  then obtain vec :: "addr option list" where
    l2: "length (chpl_priv_instances s) = 2" "currentInstanceIdx s < 2"
    and lv: "length vec = len (cur_instance s)" "int (length vec) \<le> INT_MAX"
    unfolding store_ok_alt by blast
  have nm: "b \<noteq> INT_MAX" using a lv by linarith
  have "to_int (int (to_size_t (b + 1)) - int (len (cur_instance s))) = b + 1 - int (len (cur_instance s))"
    using a lv by (subst to_size_t_id) (auto simp: INT_MAX_def intro!: to_int_id)
  then have "to_int (int (to_size_t (b + 1)) - int (len (cur_instance s))) \<le> 0"
    using a by simp
  then show "write_section b s = Some (Inr s)"
    using l2 nm by (simp add: write_section_def Let_def getCurrentInstanceIdx_def cur_instance_def)
next
  from slot_ofD [OF slot_small(2)] have e: "blockIdx_of 1024 = 1" "idx_of 1024 = 0" by simp_all
  from slot_ofD [OF slot_small(4)] have e': "blockIdx_of 1023 = 0" "idx_of 1023 = 1023" by simp_all
  have r: "int (len (cur_instance initial)) \<le> blockIdx_of 1024" "blockIdx_of 1024 < INT_MAX"
       "0 \<le> idx_of 1024" "idx_of 1024 < CHPL_PRIVATIZATION_BLOCK_SIZE"
    by (simp_all add: e initial_len INT_MAX_def CHPL_PRIVATIZATION_BLOCK_SIZE_def)
  from publish_grow [OF initial_ok r, of v] obtain s1 where
    s1: "chpl_newPrivatizedClass v 1024 initial = Some (Inr s1)" "registry_ok s1"
      "len (cur_instance s1) = 2" "length (vec_heap s1) = Suc (length (vec_heap initial))"
      "currentInstanceIdx s1 = 1 - currentInstanceIdx initial"
    unfolding e by auto
  have r': "0 \<le> blockIdx_of 1023" "blockIdx_of 1023 < int (len (cur_instance s1))"
       "0 \<le> idx_of 1023" "idx_of 1023 < CHPL_PRIVATIZATION_BLOCK_SIZE"
    by (simp_all add: e' s1(3) CHPL_PRIVATIZATION_BLOCK_SIZE_def)
  from publish_in [OF s1(2) r', of w] obtain s2 where
    s2: "chpl_newPrivatizedClass w 1023 s1 = Some (Inr s2)"
      "vec_heap s2 = vec_heap s1" "chpl_priv_instances s2 = chpl_priv_instances s1"
      "currentInstanceIdx s2 = currentInstanceIdx s1"
    by blast
  have "currentInstanceIdx s1 \<noteq> currentInstanceIdx initial"
    using s1(5) by (simp add: initial_len)
  with s1 s2 show "\<exists>s1 s2. chpl_newPrivatizedClass v 1024 initial = Some (Inr s1) \<and>
       length (vec_heap s1) = Suc (length (vec_heap initial)) \<and>
       currentInstanceIdx s1 \<noteq> currentInstanceIdx initial \<and>
       len (cur_instance s1) = 2 \<and>
       chpl_newPrivatizedClass w 1023 s1 = Some (Inr s2) \<and>
       vec_heap s2 = vec_heap s1 \<and> chpl_priv_instances s2 = chpl_priv_instances s1 \<and>
       currentInstanceIdx s2 = currentInstanceIdx s1"
    by blast
qed

theorem growth_idempotent_witness:
  "store_ok initial \<and> (0 :: int) \<le> 0 \<and> 0 < int (len (cur_instance initial)) \<and>
   write_section 0 initial = Some (Inr initial)"
proof -
  have "store_ok initial" using initial_ok by (simp add: registry_ok_def)
  moreover have "0 < int (len (cur_instance initial))" by (simp add: initial_len)
  ultimately show ?thesis
    using growth_idempotent [of 0 0] by simp
qed

subsection \<open>C8: decomposition of a pid\<close>

text \<open>
  C8, as stated: for every non-negative \<open>int64_t\<close> pid the slot addressed is
  \<open>(pid / BLOCK_SIZE, pid % BLOCK_SIZE)\<close>. The block index is held in an \<open>int\<close>, so
  the quotient is truncated to 32 bits: pid \<open>2 ^ 42\<close> addresses slot \<open>(0, 0)\<close>, the slot
  of pid 0, while its quotient is \<open>2 ^ 32\<close>.
\<close>

theorem pid_decomposition_counterexample:
  "0 \<le> sint (2 ^ 42 :: pid_t) \<and> slot_of (2 ^ 42) = (0, 0) \<and>
   sint (2 ^ 42 :: pid_t) div CHPL_PRIVATIZATION_BLOCK_SIZE = 2 ^ 32"
  by (simp add: slot_of_def blockIdx_of_def idx_of_def CHPL_PRIVATIZATION_BLOCK_SIZE_def
      to_int_def signed_divide_int_def signed_modulo_int_def)

text \<open>
  C8, amended: for every pid with \<open>0 \<le> pid < 2 ^ 41\<close> (the pids whose quotient fits
  \<open>int\<close>) the slot that publish, get and clear address is
  \<open>(pid / BLOCK_SIZE, pid % BLOCK_SIZE)\<close> with \<open>BLOCK_SIZE = 1024\<close>: get reads that slot,
  a clear that returns leaves null in it, a publish that returns leaves its value in it.
\<close>

theorem pid_decomposition_exact:
  assumes "0 \<le> sint pid" "sint pid < 2 ^ 41" "registry_ok s"
  shows "slot_of pid = (sint pid div CHPL_PRIVATIZATION_BLOCK_SIZE, sint pid mod CHPL_PRIVATIZATION_BLOCK_SIZE)
       \<and> CHPL_PRIVATIZATION_BLOCK_SIZE = 1024
       \<and> get_value pid s =
           load_slot s (currentInstanceIdx s) (sint pid div CHPL_PRIVATIZATION_BLOCK_SIZE)
             (sint pid mod CHPL_PRIVATIZATION_BLOCK_SIZE)
       \<and> (\<forall>s'. chpl_clearPrivatizedClass pid s = Inr s' \<longrightarrow>
             load_slot s' (currentInstanceIdx s') (sint pid div CHPL_PRIVATIZATION_BLOCK_SIZE)
               (sint pid mod CHPL_PRIVATIZATION_BLOCK_SIZE) = Inr 0)
       \<and> (\<forall>v s'. chpl_newPrivatizedClass v pid s = Some (Inr s') \<longrightarrow>
             load_slot s' (currentInstanceIdx s') (sint pid div CHPL_PRIVATIZATION_BLOCK_SIZE)
               (sint pid mod CHPL_PRIVATIZATION_BLOCK_SIZE) = Inr v)"
proof -
  have e: "blockIdx_of pid = sint pid div CHPL_PRIVATIZATION_BLOCK_SIZE"
    "idx_of pid = sint pid mod CHPL_PRIVATIZATION_BLOCK_SIZE"
    using assms(1,2) by (simp_all add: blockIdx_of_small idx_of_nonneg)
  have c: "load_slot s' (currentInstanceIdx s') (blockIdx_of pid) (idx_of pid) = Inr 0"
    if "chpl_clearPrivatizedClass pid s = Inr s'" for s'
    using clear_sound [OF assms(3) that] by simp
  have p: "load_slot s' (currentInstanceIdx s') (blockIdx_of pid) (idx_of pid) = Inr v"
    if "chpl_newPrivatizedClass v pid s = Some (Inr s')" for v s'
    using publish_sound [OF that assms(3)] by (simp add: publish_post_def)
  show ?thesis
    using get_value_eq [OF assms(3), of pid] c p
    unfolding e by (simp add: slot_of_def e CHPL_PRIVATIZATION_BLOCK_SIZE_def)
qed

theorem pid_decomposition_exact_witness:
  "0 \<le> sint (5000 :: pid_t) \<and> sint (5000 :: pid_t) < 2 ^ 41 \<and> registry_ok initial \<and>
   slot_of 5000 = (4, 904) \<and> get_value 5000 initial = load_slot initial 0 4 904"
  using pid_decomposition_exact [of 5000 initial] initial_ok
  by (simp add: CHPL_PRIVATIZATION_BLOCK_SIZE_def initial_len)

subsection \<open>C9: clear then get\<close>

text \<open>
  C9, as stated: for every non-negative pid \<open>p\<close>, after \<open>clear(p)\<close> a \<open>get(p)\<close> returns null.
  \<open>chpl_clearPrivatizedClass\<close> stores through \<open>blocks[blockIdx][idx]\<close> without a bounds
  check: right after \<open>init()\<close>, \<open>clear(1024)\<close> writes through entry 1 of a one-entry
  vector.
\<close>

theorem clear_get_counterexample:
  "0 \<le> sint (1024 :: pid_t) \<and>
   observe (get_value 1024) [Clear 1024] = Some (Inl OutOfBounds)"
proof -
  from slot_ofD [OF slot_small(2)] have e1: "blockIdx_of 1024 = 1" by simp
  have t: "tls_ok initial" using initial_ok by (simp add: registry_ok_def)
  from acquireRead_ok [OF t] obtain s1 where
    s1: "acquireRead initial = Inr (currentInstanceIdx initial, s1)" "same_store initial s1"
    by blast
  have "store_ok s1" using same_store_ok [OF s1(2)] initial_ok by (simp add: registry_ok_def)
  moreover have "cur_instance s1 = cur_instance initial" "currentInstanceIdx s1 = currentInstanceIdx initial"
    using s1(2) by (simp_all add: same_store_def cur_instance_def)
  ultimately have "block_at s1 (currentInstanceIdx initial) 1 = Inl OutOfBounds"
    using block_at_out [of s1 1] by (simp add: initial_len)
  then have "chpl_clearPrivatizedClass 1024 initial = Inl OutOfBounds"
    by (simp add: chpl_clearPrivatizedClass_def s1(1) store_slot_def e1)
  then show ?thesis by (simp add: observe_def)
qed

text \<open>
  C9, amended: after any list of operations run from \<open>init()\<close>, for every non-negative pid
  \<open>p\<close> inside the current capacity (\<open>p / BLOCK_SIZE < len\<close>), \<open>clear(p)\<close> returns and a
  following \<open>get(p)\<close> returns null; the value at every pid that addresses another slot is
  unchanged; and when no publish addressed the slot of \<open>p\<close>, the clear changes the value
  at no pid at all.
\<close>

theorem clear_then_get:
  assumes "run ops initial = Some (Inr s)"
    and "0 \<le> sint p" "sint p div CHPL_PRIVATIZATION_BLOCK_SIZE < int (len (cur_instance s))"
  shows "\<exists>s'. chpl_clearPrivatizedClass p s = Inr s' \<and> get_value p s' = Inr 0 \<and>
     (\<forall>q. slot_of q \<noteq> slot_of p \<longrightarrow> get_value q s' = get_value q s) \<and>
     ((\<forall>v q. Publish v q \<in> set ops \<longrightarrow> slot_of q \<noteq> slot_of p) \<longrightarrow>
        (\<forall>q. get_value q s' = get_value q s))"
proof -
  note ok = reach_ok [OF assms(1)]
  from ok obtain vec :: "addr option list" where
    lv: "length vec = len (cur_instance s)" "int (length vec) \<le> INT_MAX"
    unfolding registry_ok_def store_ok_alt by blast
  have bm: "sint p div CHPL_PRIVATIZATION_BLOCK_SIZE < INT_MAX"
    using assms(3) lv by linarith
  note vp = valid_pid [OF assms(2) bm]
  have "blockIdx_of p < int (len (cur_instance s))" using assms(3) by (simp add: vp(1))
  from clear_in [OF ok vp(3) this vp(5,6)] obtain s' where
    s': "chpl_clearPrivatizedClass p s = Inr s'" "registry_ok s'"
      "currentInstanceIdx s' = currentInstanceIdx s"
      "load_slot s' (currentInstanceIdx s) (blockIdx_of p) (idx_of p) = Inr 0"
      "\<And>b' i'. (b', i') \<noteq> slot_of p \<Longrightarrow>
         load_slot s' (currentInstanceIdx s) b' i' = load_slot s (currentInstanceIdx s) b' i'"
    by blast
  have g: "get_value q s' = load_slot s' (currentInstanceIdx s) (blockIdx_of q) (idx_of q)" for q
    by (simp add: get_value_eq [OF s'(2)] s'(3))
  have a: "get_value p s' = Inr 0" by (simp add: g s'(4))
  have b: "get_value q s' = get_value q s" if "slot_of q \<noteq> slot_of p" for q
    using s'(5) [of "blockIdx_of q" "idx_of q"] that
    by (simp add: g get_value_eq [OF ok] slot_of_def)
  have c: "get_value q s' = get_value q s"
    if np: "\<forall>v q. Publish v q \<in> set ops \<longrightarrow> slot_of q \<noteq> slot_of p" for q
  proof (cases "slot_of q = slot_of p")
    case False
    then show ?thesis by (rule b)
  next
    case True
    then have e: "blockIdx_of q = blockIdx_of p" "idx_of q = idx_of p" by (simp_all add: slot_of_def)
    have "get_value p s = Inr 0" by (rule never_published_null [OF assms(1) np assms(2,3)])
    then show ?thesis using a by (simp add: g get_value_eq [OF ok] e)
  qed
  from s'(1) a b c show ?thesis by blast
qed

theorem clear_then_get_witness:
  "run [] initial = Some (Inr initial) \<and> 0 \<le> sint (42 :: pid_t) \<and>
   sint (42 :: pid_t) div CHPL_PRIVATIZATION_BLOCK_SIZE < int (len (cur_instance initial)) \<and>
   (\<exists>s'. chpl_clearPrivatizedClass 42 initial = Inr s' \<and> get_value 42 s' = Inr 0 \<and>
      (\<forall>q. get_value q s' = get_value q initial))"
  using clear_then_get [of "[]" initial 42]
  by (simp add: CHPL_PRIVATIZATION_BLOCK_SIZE_def initial_len) blast

subsection \<open>C10: minimal growth\<close>

text \<open>
  C10, as stated: after a publish of \<open>p\<close> that grows, \<open>len\<close> is \<open>p / BLOCK_SIZE + 1\<close> and
  \<open>capacity()\<close> is \<open>(p / BLOCK_SIZE + 1) * BLOCK_SIZE\<close>. The code sets \<open>len = blockIdx + 1\<close>
  with the truncated \<open>int blockIdx\<close>: publishing pid \<open>2 ^ 42 + 1024\<close> from the initial state
  grows to two blocks, capacity 2048.
\<close>

theorem grow_len_counterexample:
  "0 \<le> sint (2 ^ 42 + 1024 :: pid_t) \<and>
   observe capacity [Publish 7 (2 ^ 42 + 1024)] = Some (Inr 2048) \<and>
   (sint (2 ^ 42 + 1024 :: pid_t) div CHPL_PRIVATIZATION_BLOCK_SIZE + 1) * CHPL_PRIVATIZATION_BLOCK_SIZE
     = 2 ^ 42 + 2048"
proof -
  from publish_grow_initial [OF slot_big(2), of 7] obtain s' where
    s': "chpl_newPrivatizedClass 7 (2 ^ 42 + 1024) initial = Some (Inr s')" "registry_ok s'"
      "len (cur_instance s') = 2"
    by (auto simp: INT_MAX_def CHPL_PRIVATIZATION_BLOCK_SIZE_def)
  have "capacity s' = Inr 2048"
    using capacity_eq [OF s'(2)] s'(3) by (simp add: CHPL_PRIVATIZATION_BLOCK_SIZE_def)
  with observe_publish [OF s'(1), of capacity] show ?thesis
    by (simp add: CHPL_PRIVATIZATION_BLOCK_SIZE_def)
qed

text \<open>
  C10, amended: when \<open>publish(p, v)\<close> triggers a grow (\<open>len \<le> p / BLOCK_SIZE\<close>) for a pid
  with \<open>0 \<le> p\<close> and \<open>p / BLOCK_SIZE < INT_MAX\<close>, the new \<open>len\<close> is exactly
  \<open>p / BLOCK_SIZE + 1\<close> and \<open>capacity()\<close> is \<open>(p / BLOCK_SIZE + 1) * BLOCK_SIZE\<close>.
\<close>

theorem grow_is_minimal:
  assumes "run ops initial = Some (Inr s)"
    and "0 \<le> sint p" "sint p div CHPL_PRIVATIZATION_BLOCK_SIZE < INT_MAX"
    and "int (len (cur_instance s)) \<le> sint p div CHPL_PRIVATIZATION_BLOCK_SIZE"
  shows "\<exists>s'. chpl_newPrivatizedClass v p s = Some (Inr s') \<and>
           int (len (cur_instance s')) = sint p div CHPL_PRIVATIZATION_BLOCK_SIZE + 1 \<and>
           capacity s' =
             Inr ((sint p div CHPL_PRIVATIZATION_BLOCK_SIZE + 1) * CHPL_PRIVATIZATION_BLOCK_SIZE)"
proof -
  note vp = valid_pid [OF assms(2,3)]
  from publish_valid [OF reach_ok [OF assms(1)] vp(3-6), of v]
  obtain s' where s': "chpl_newPrivatizedClass v p s = Some (Inr s')" "publish_post v p s s'"
    by blast
  from s'(2) have ok': "registry_ok s'"
    and l: "len (cur_instance s') = max (len (cur_instance s)) (nat (blockIdx_of p + 1))"
    by (simp_all add: publish_post_def)
  have "int (len (cur_instance s')) = sint p div CHPL_PRIVATIZATION_BLOCK_SIZE + 1"
    using l assms(4) vp(3) unfolding vp(1) by linarith
  with capacity_eq [OF ok'] s'(1) show ?thesis by simp
qed

theorem grow_is_minimal_witness:
  "run [] initial = Some (Inr initial) \<and> 0 \<le> sint (5000 :: pid_t) \<and>
   sint (5000 :: pid_t) div CHPL_PRIVATIZATION_BLOCK_SIZE < INT_MAX \<and>
   int (len (cur_instance initial)) \<le> sint (5000 :: pid_t) div CHPL_PRIVATIZATION_BLOCK_SIZE \<and>
   (\<exists>s'. chpl_newPrivatizedClass 7 5000 initial = Some (Inr s') \<and>
        int (len (cur_instance s')) = 5 \<and> capacity s' = Inr 5120)"
  using grow_is_minimal [of "[]" initial 5000 7]
  by (simp add: CHPL_PRIVATIZATION_BLOCK_SIZE_def INT_MAX_def initial_len)

end
